theory Spec2Isabelle
  imports Main
begin

section \<open>Session lifecycle of the game server (src/server.js, lines 86-252)\<close>

text \<open>
  The server keeps one \<open>SessionManager\<close> whose \<open>sessions\<close> array holds \<open>GameSession\<close>
  objects. Three socket handlers (\<open>find\<close>, \<open>getScore\<close>, \<open>disconnect\<close>) and a periodic
  \<open>cleanup\<close> mutate it. Each handler runs to completion, so the model is a step function
  on the manager that also returns the messages the handler emits.

  JavaScript compares objects by reference (\<open>indexOf\<close>). Each session therefore carries
  the number \<open>oid\<close> of its allocation, taken from the counter \<open>next_oid\<close>; two sessions
  are the same object exactly when their \<open>oid\<close> agree. Times are milliseconds as
  returned by \<open>Date.now()\<close>, passed to the handlers that read the clock. An event's
  payload is an object; its \<open>name\<close> and \<open>score\<close> are arbitrary values and its \<open>sessionId\<close>
  is a number, as the server broadcasts it.
\<close>

subsection \<open>Constants\<close>

definition MAX_SESSIONS :: nat where
  "MAX_SESSIONS = 100"

definition PLAYERS_PER_SESSION :: nat where
  "PLAYERS_PER_SESSION = 4"

definition SESSION_TIMEOUT :: int where
  "SESSION_TIMEOUT = 5 * 60 * 1000"

subsection \<open>Values, players, sessions\<close>

text \<open>The payload fields a client sends are arbitrary JavaScript values.\<close>

datatype js_value = JUndefined | JNull | JBool bool | JNum int | JStr string

text \<open>\<open>!v\<close> is true for undefined, null, false, 0 and the empty string.\<close>

fun falsy :: "js_value \<Rightarrow> bool" where
  "falsy JUndefined = True"
| "falsy JNull = True"
| "falsy (JBool b) = (\<not> b)"
| "falsy (JNum n) = (n = 0)"
| "falsy (JStr s) = (s = [])"

fun typeof :: "js_value \<Rightarrow> string" where
  "typeof JUndefined = ''undefined''"
| "typeof JNull = ''object''"
| "typeof (JBool b) = ''boolean''"
| "typeof (JNum n) = ''number''"
| "typeof (JStr s) = ''string''"

datatype error =
    Invalid_player_name
  | Session_is_full
  | Maximum_sessions_limit_reached
  | Invalid_session

record player =
  name :: string
  socketId :: nat

text \<open>
  An element of \<open>playersScore\<close>. \<open>getScore\<close> pushes the whole payload and \<open>disconnect\<close>
  pushes \<open>{name, score: 0}\<close>; only \<open>name\<close> and \<open>score\<close> are ever read back.
\<close>

datatype score_entry = Score_entry (entry_name: js_value) (entry_score: js_value)

record GameSession =
  oid :: nat
  players :: "player list"
  playersScore :: "score_entry list"
  disconnectedPlayersCount :: nat
  createdAt :: int

record SessionManager =
  sessions :: "GameSession list"
  next_oid :: nat

text \<open>What a handler sends: broadcasts (\<open>io.emit\<close>), the error event to one socket
  (\<open>socket.emit\<close>) and the acknowledgement callback of \<open>getScore\<close>.\<close>

datatype status = Success | Error error

datatype message =
    Broadcast_find int
  | Broadcast_getScore int "score_entry list"
  | Emit_error nat error
  | Callback status

subsection \<open>GameSession\<close>

definition new_GameSession :: "nat \<Rightarrow> int \<Rightarrow> GameSession" where
  "new_GameSession r now =
     \<lparr>oid = r, players = [], playersScore = [], disconnectedPlayersCount = 0, createdAt = now\<rparr>"

definition addPlayer :: "GameSession \<Rightarrow> player \<Rightarrow> error + GameSession" where
  "addPlayer s p =
     (if length (players s) \<ge> PLAYERS_PER_SESSION then Inl Session_is_full
      else Inr (s\<lparr>players := players s @ [p]\<rparr>))"

definition isExpired :: "int \<Rightarrow> GameSession \<Rightarrow> bool" where
  "isExpired now s = (now - createdAt s > SESSION_TIMEOUT)"

subsection \<open>Array operations on the session list\<close>

text \<open>\<open>sessions.indexOf(session)\<close>: the first position holding that object, or -1.\<close>

fun indexOf :: "GameSession list \<Rightarrow> GameSession \<Rightarrow> int" where
  "indexOf [] x = - 1"
| "indexOf (s # ss) x =
     (if oid s = oid x then 0
      else (let j = indexOf ss x in if j = - 1 then - 1 else j + 1))"

text \<open>\<open>xs.splice(j, 1)\<close>: a negative start counts from the end, a start beyond the
  end removes nothing.\<close>

definition splice1 :: "int \<Rightarrow> 'a list \<Rightarrow> 'a list" where
  "splice1 j xs =
     (let len = int (length xs);
          start = nat (if j < 0 then max (len + j) 0 else min j len)
      in take start xs @ drop (Suc start) xs)"

text \<open>\<open>players.findIndex(p => p.socketId === socket.id)\<close>, None for -1.\<close>

fun findIndex :: "nat \<Rightarrow> player list \<Rightarrow> nat option" where
  "findIndex c [] = None"
| "findIndex c (p # ps) =
     (if socketId p = c then Some 0 else map_option Suc (findIndex c ps))"

text \<open>\<open>sessions.find(s => s.players.length < PLAYERS_PER_SESSION)\<close>: the position of
  the first session with a free seat (the object found is the one stored there).\<close>

fun findOpenSession :: "GameSession list \<Rightarrow> nat option" where
  "findOpenSession [] = None"
| "findOpenSession (s # ss) =
     (if length (players s) < PLAYERS_PER_SESSION then Some 0
      else map_option Suc (findOpenSession ss))"

subsection \<open>SessionManager\<close>

definition init :: SessionManager where
  "init = \<lparr>sessions = [], next_oid = 0\<rparr>"

definition cleanup :: "int \<Rightarrow> SessionManager \<Rightarrow> SessionManager" where
  "cleanup now m = m\<lparr>sessions := filter (\<lambda>s. \<not> isExpired now s) (sessions m)\<rparr>"

text \<open>Returns the position of the new session together with the updated manager.\<close>

definition createSession :: "int \<Rightarrow> SessionManager \<Rightarrow> error + (nat \<times> SessionManager)" where
  "createSession now m =
     (if length (sessions m) \<ge> MAX_SESSIONS then Inl Maximum_sessions_limit_reached
      else Inr (length (sessions m),
                m\<lparr>sessions := sessions m @ [new_GameSession (next_oid m) now],
                  next_oid := Suc (next_oid m)\<rparr>))"

subsection \<open>The socket handlers\<close>

text \<open>\<open>socket.on("find")\<close>. Every exception is caught and reported to the caller only.\<close>

definition validate_name :: "js_value \<Rightarrow> error + string" where
  "validate_name v =
     (if falsy v \<or> typeof v \<noteq> ''string'' then Inl Invalid_player_name
      else (case v of JStr s \<Rightarrow> Inr s | _ \<Rightarrow> Inl Invalid_player_name))"

definition find_handler ::
  "js_value \<Rightarrow> nat \<Rightarrow> int \<Rightarrow> SessionManager \<Rightarrow> SessionManager \<times> message list" where
  "find_handler nm c now m =
     (case validate_name nm of
        Inl e \<Rightarrow> (m, [Emit_error c e])
      | Inr n \<Rightarrow>
          (case (case findOpenSession (sessions m) of
                   Some i \<Rightarrow> Inr (i, m)
                 | None \<Rightarrow> createSession now m) of
             Inl e \<Rightarrow> (m, [Emit_error c e])
           | Inr (i, m1) \<Rightarrow>
               (case addPlayer (sessions m1 ! i) \<lparr>name = n, socketId = c\<rparr> of
                  Inl e \<Rightarrow> (m1, [Emit_error c e])
                | Inr s' \<Rightarrow>
                    (let m2 = m1\<lparr>sessions := (sessions m1)[i := s']\<rparr>
                     in (m2, if length (players s') = PLAYERS_PER_SESSION
                             then [Broadcast_find (indexOf (sessions m2) s')]
                             else [])))))"

text \<open>\<open>socket.on("getScore")\<close>. \<open>sid\<close> is the numeric \<open>data.sessionId\<close>; \<open>cb\<close> tells
  whether the client passed an acknowledgement callback.\<close>

definition getScore_handler ::
  "int \<Rightarrow> js_value \<Rightarrow> js_value \<Rightarrow> bool \<Rightarrow> SessionManager \<Rightarrow> SessionManager \<times> message list" where
  "getScore_handler sid nm sc cb m =
     (if sid < 0 \<or> int (length (sessions m)) \<le> sid
      then (m, if cb then [Callback (Error Invalid_session)] else [])
      else
        (let i = nat sid;
             s = sessions m ! i;
             s' = s\<lparr>playersScore := playersScore s @ [Score_entry nm sc]\<rparr>;
             ss = (sessions m)[i := s']
         in if length (playersScore s') = PLAYERS_PER_SESSION
            then (let sessionIndex = indexOf ss s'
                  in (m\<lparr>sessions := (if sessionIndex \<noteq> - 1 then splice1 sessionIndex ss else ss)\<rparr>,
                      Broadcast_getScore sid (playersScore s')
                        # (if cb then [Callback Success] else [])))
            else (m\<lparr>sessions := ss\<rparr>, if cb then [Callback Success] else [])))"

text \<open>\<open>socket.on('disconnect')\<close>. The loop stops at the first session that holds the
  socket; \<open>disconnect_scan\<close> gives that session's position and the player's position.\<close>

fun disconnect_scan :: "nat \<Rightarrow> GameSession list \<Rightarrow> (nat \<times> nat) option" where
  "disconnect_scan c [] = None"
| "disconnect_scan c (s # ss) =
     (case findIndex c (players s) of
        Some k \<Rightarrow> Some (0, k)
      | None \<Rightarrow> map_option (\<lambda>(i, k). (Suc i, k)) (disconnect_scan c ss))"

definition disconnect_handler :: "nat \<Rightarrow> SessionManager \<Rightarrow> SessionManager \<times> message list" where
  "disconnect_handler c m =
     (case disconnect_scan c (sessions m) of
        None \<Rightarrow> (m, [])
      | Some (i, playerIndex) \<Rightarrow>
          (let s = sessions m ! i
           in if length (players s) < PLAYERS_PER_SESSION
              then (m\<lparr>sessions :=
                        (sessions m)[i := s\<lparr>players := splice1 (int playerIndex) (players s)\<rparr>]\<rparr>, [])
              else
                (let s' = s\<lparr>playersScore :=
                               playersScore s @ [Score_entry (JStr (name (players s ! playerIndex))) (JNum 0)],
                             disconnectedPlayersCount := Suc (disconnectedPlayersCount s)\<rparr>;
                     ss = (sessions m)[i := s']
                 in if disconnectedPlayersCount s' = PLAYERS_PER_SESSION
                    then (m\<lparr>sessions := splice1 (indexOf ss s') ss\<rparr>, [])
                    else (m\<lparr>sessions := ss\<rparr>, []))))"

subsection \<open>Events and runs\<close>

datatype event =
    Find js_value nat int
  | GetScore int js_value js_value bool
  | Disconnect nat
  | Cleanup int

fun step :: "event \<Rightarrow> SessionManager \<Rightarrow> SessionManager \<times> message list" where
  "step (Find nm c now) m = find_handler nm c now m"
| "step (GetScore sid nm sc cb) m = getScore_handler sid nm sc cb m"
| "step (Disconnect c) m = disconnect_handler c m"
| "step (Cleanup now) m = (cleanup now m, [])"

fun run :: "event list \<Rightarrow> SessionManager \<Rightarrow> SessionManager" where
  "run [] m = m"
| "run (e # es) m = run es (fst (step e m))"

fun trace :: "event list \<Rightarrow> SessionManager \<Rightarrow> message list" where
  "trace [] m = []"
| "trace (e # es) m = snd (step e m) @ trace es (fst (step e m))"

section \<open>The earlier handlers (src/server.js, lines 16-55)\<close>

text \<open>
  The file opens with an earlier version of the \<open>find\<close> and \<open>getScore\<close> handlers. It keeps
  the sessions in an object keyed by a counter (\<open>sessionIdCounter\<close>), checks no name, and
  after the fourth score it empties the session (\<open>session.players = []\<close>,
  \<open>session.playersScore = []\<close>) and leaves it in the store. The two handler bodies are
  modelled as written, with \<open>socket.id\<close> the id of the sending connection as in the later
  server (the fragment has lost the \<open>io.on('connection', ...)\<close> line that binds \<open>socket\<close>).
  That version's \<open>disconnect\<close> handler iterates over the object with \<open>for ... of\<close> and
  cannot run, so it has no model.
\<close>

record player_v1 =
  name_v1 :: js_value
  socketId_v1 :: nat

record session_v1 =
  id_v1 :: nat
  players_v1 :: "player_v1 list"
  playersScore_v1 :: "score_entry list"
  disconnectedPlayersCount_v1 :: nat

record server_v1 =
  sessionIdCounter :: nat
  sessions_v1 :: "nat \<rightharpoonup> session_v1"

definition init_v1 :: server_v1 where
  "init_v1 = \<lparr>sessionIdCounter = 0, sessions_v1 = Map.empty\<rparr>"

text \<open>\<open>Object.values(sessions)\<close>: the values in ascending key order; every key is below
  \<open>sessionIdCounter\<close>.\<close>

definition Object_values :: "server_v1 \<Rightarrow> session_v1 list" where
  "Object_values sv =
     concat (map (\<lambda>k. case sessions_v1 sv k of None \<Rightarrow> [] | Some s \<Rightarrow> [s])
       [0 ..< sessionIdCounter sv])"

definition find_handler_v1 :: "js_value \<Rightarrow> nat \<Rightarrow> server_v1 \<Rightarrow> server_v1 \<times> message list" where
  "find_handler_v1 nm c sv =
     (let (session, sv1) =
            (case List.find (\<lambda>s. length (players_v1 s) < 4) (Object_values sv) of
               Some s \<Rightarrow> (s, sv)
             | None \<Rightarrow>
                 (let s = \<lparr>id_v1 = sessionIdCounter sv, players_v1 = [], playersScore_v1 = [],
                            disconnectedPlayersCount_v1 = 0\<rparr>
                  in (s, sv\<lparr>sessionIdCounter := Suc (sessionIdCounter sv),
                            sessions_v1 := (sessions_v1 sv)(id_v1 s \<mapsto> s)\<rparr>)));
          session' = session\<lparr>players_v1 := players_v1 session @ [\<lparr>name_v1 = nm, socketId_v1 = c\<rparr>]\<rparr>
      in (sv1\<lparr>sessions_v1 := (sessions_v1 sv1)(id_v1 session' \<mapsto> session')\<rparr>,
          if length (players_v1 session') = 4 then [Broadcast_find (int (id_v1 session'))] else []))"

definition getScore_handler_v1 ::
  "int \<Rightarrow> js_value \<Rightarrow> js_value \<Rightarrow> server_v1 \<Rightarrow> server_v1 \<times> message list" where
  "getScore_handler_v1 sid nm sc sv =
     (case (if sid < 0 then None else sessions_v1 sv (nat sid)) of
        None \<Rightarrow> (sv, [])
      | Some session \<Rightarrow>
          (let session' = session\<lparr>playersScore_v1 := playersScore_v1 session @ [Score_entry nm sc]\<rparr>
           in if length (playersScore_v1 session') = 4
              then (sv\<lparr>sessions_v1 := (sessions_v1 sv)
                        (nat sid \<mapsto> session'\<lparr>players_v1 := [], playersScore_v1 := []\<rparr>)\<rparr>,
                    [Broadcast_getScore sid (playersScore_v1 session')])
              else (sv\<lparr>sessions_v1 := (sessions_v1 sv)(nat sid \<mapsto> session')\<rparr>, [])))"

datatype event_v1 = Find_v1 js_value nat | GetScore_v1 int js_value js_value

fun step_v1 :: "event_v1 \<Rightarrow> server_v1 \<Rightarrow> server_v1 \<times> message list" where
  "step_v1 (Find_v1 nm c) sv = find_handler_v1 nm c sv"
| "step_v1 (GetScore_v1 sid nm sc) sv = getScore_handler_v1 sid nm sc sv"

fun run_v1 :: "event_v1 list \<Rightarrow> server_v1 \<Rightarrow> server_v1" where
  "run_v1 [] sv = sv"
| "run_v1 (e # es) sv = run_v1 es (fst (step_v1 e sv))"

fun trace_v1 :: "event_v1 list \<Rightarrow> server_v1 \<Rightarrow> message list" where
  "trace_v1 [] sv = []"
| "trace_v1 (e # es) sv = snd (step_v1 e sv) @ trace_v1 es (fst (step_v1 e sv))"

section \<open>Properties and scenarios\<close>

subsection \<open>Predicates on stores and runs\<close>

text \<open>Every object sits once in the array, and the allocation counter is ahead of all
  of them.\<close>

definition wf_store :: "SessionManager \<Rightarrow> bool" where
  "wf_store m \<longleftrightarrow>
     distinct (map oid (sessions m)) \<and> (\<forall>s\<in>set (sessions m). oid s < next_oid m)"

text \<open>A \<open>find\<close> event whose name passes the handler's check.\<close>

fun valid_join :: "event \<Rightarrow> bool" where
  "valid_join (Find nm c now) = (\<not> falsy nm \<and> typeof nm = ''string'')"
| "valid_join e = False"

text \<open>The sockets seated in a session, and in the whole store, in order.\<close>

definition session_sockets :: "GameSession \<Rightarrow> nat list" where
  "session_sockets s = map socketId (players s)"

definition all_sockets :: "SessionManager \<Rightarrow> nat list" where
  "all_sockets m = concat (map session_sockets (sessions m))"

text \<open>The sockets of the \<open>find\<close> events of a run.\<close>

fun find_sockets :: "event list \<Rightarrow> nat list" where
  "find_sockets [] = []"
| "find_sockets (Find nm c now # es) = c # find_sockets es"
| "find_sockets (e # es) = find_sockets es"

text \<open>
  No seated socket joins again: every \<open>find\<close> with a valid name comes from a socket that
  is not seated anywhere in the store at that moment. A socket may join again once its
  seat is gone, and may retry after a rejected name.
\<close>

fun join_unseated :: "event \<Rightarrow> SessionManager \<Rightarrow> bool" where
  "join_unseated (Find nm c now) m =
     (\<not> valid_join (Find nm c now) \<or> c \<notin> set (all_sockets m))"
| "join_unseated e m = True"

fun joins_unseated :: "event list \<Rightarrow> SessionManager \<Rightarrow> bool" where
  "joins_unseated [] m = True"
| "joins_unseated (e # es) m = (join_unseated e m \<and> joins_unseated es (fst (step e m)))"

text \<open>
  The objects announced by the \<open>find\<close> broadcasts of a run: a broadcast carries a
  position, which is resolved in the store the handler leaves behind.
\<close>

fun announced :: "SessionManager \<Rightarrow> message \<Rightarrow> nat list" where
  "announced m (Broadcast_find j) = [oid (sessions m ! nat j)]"
| "announced m msg = []"

fun full_log :: "event list \<Rightarrow> SessionManager \<Rightarrow> nat list" where
  "full_log [] m = []"
| "full_log (e # es) m =
     concat (map (announced (fst (step e m))) (snd (step e m))) @ full_log es (fst (step e m))"

text \<open>The log holds no object twice, and a stored session is in it exactly when it is
  full.\<close>

definition log_inv :: "SessionManager \<Rightarrow> nat list \<Rightarrow> bool" where
  "log_inv m log \<longleftrightarrow>
     wf_store m \<and> distinct log \<and> (\<forall>r\<in>set log. r < next_oid m) \<and>
     (\<forall>s\<in>set (sessions m). oid s \<in> set log \<longleftrightarrow> length (players s) = PLAYERS_PER_SESSION)"

subsection \<open>Scenarios\<close>

definition lobby_events :: "event list" where
  "lobby_events =
     [Find (JStr ''A'') 1 0, Find (JStr ''B'') 2 0, Find (JStr ''C'') 3 0, Find (JStr ''D'') 4 0]"

definition second_lobby_events :: "event list" where
  "second_lobby_events =
     [Find (JStr ''E'') 5 0, Find (JStr ''F'') 6 0, Find (JStr ''G'') 7 0, Find (JStr ''H'') 8 0]"

definition first_lobby_scores :: "event list" where
  "first_lobby_scores =
     [GetScore 0 (JStr ''A'') (JNum 10) True, GetScore 0 (JStr ''B'') (JNum 20) True,
      GetScore 0 (JStr ''C'') (JNum 30) True, GetScore 0 (JStr ''D'') (JNum 40) True]"

definition full_lobby :: SessionManager where
  "full_lobby = run lobby_events init"

definition two_lobbies :: SessionManager where
  "two_lobbies = run (lobby_events @ second_lobby_events) init"

definition three_scores :: "event list" where
  "three_scores =
     [GetScore 0 (JStr ''A'') (JNum 10) True, GetScore 0 (JStr ''B'') (JNum 20) True,
      GetScore 0 (JStr ''C'') (JNum 30) True]"

definition three_scored :: SessionManager where
  "three_scored = run (lobby_events @ three_scores) init"

text \<open>A player comes and goes, a lobby fills, and one name submits twice.\<close>

definition repeated_name_events :: "event list" where
  "repeated_name_events =
     Find (JStr ''X'') 9 0 # Disconnect 9 # lobby_events @
     [GetScore 0 (JStr ''A'') (JNum 10) True, GetScore 0 (JStr ''A'') (JNum 11) True]"

text \<open>A full game, a rematch on the same four sockets, and a fifth socket that retries
  after a rejected name.\<close>

definition rematch_events :: "event list" where
  "rematch_events =
     lobby_events @ first_lobby_scores @ lobby_events @
     [Find (JStr '''') 5 0, Find (JStr ''E'') 5 0]"

definition lobby_events_v1 :: "event_v1 list" where
  "lobby_events_v1 =
     [Find_v1 (JStr ''A'') 1, Find_v1 (JStr ''B'') 2, Find_v1 (JStr ''C'') 3, Find_v1 (JStr ''D'') 4]"

definition lobby_scores_v1 :: "event_v1 list" where
  "lobby_scores_v1 =
     [GetScore_v1 0 (JStr ''A'') (JNum 10), GetScore_v1 0 (JStr ''B'') (JNum 20),
      GetScore_v1 0 (JStr ''C'') (JNum 30), GetScore_v1 0 (JStr ''D'') (JNum 40)]"

section \<open>Auxiliary facts\<close>

subsection \<open>Array operations\<close>

lemma indexOf_ge: "indexOf ss x \<ge> - 1"
  by (induction ss) (auto simp: Let_def)

lemma indexOf_nth:
  "distinct (map oid ss) \<Longrightarrow> i < length ss \<Longrightarrow> oid x = oid (ss ! i) \<Longrightarrow> indexOf ss x = int i"
proof (induction ss arbitrary: i)
  case Nil
  then show ?case by simp
next
  case (Cons s ss)
  show ?case
  proof (cases i)
    case 0
    with Cons.prems show ?thesis by simp
  next
    case (Suc k)
    with Cons.prems have k: "k < length ss" and ox: "oid x = oid (ss ! k)" and d: "distinct (map oid ss)"
      by simp_all
    from Cons.prems Suc k have "oid s \<noteq> oid (ss ! k)"
      by (metis distinct.simps(2) list.simps(9) nth_map length_map nth_mem)
    with Cons.IH [OF d k ox] ox Suc show ?thesis by (simp add: Let_def)
  qed
qed

lemma splice1_nat: "i \<le> length xs \<Longrightarrow> splice1 (int i) xs = take i xs @ drop (Suc i) xs"
  by (simp add: splice1_def Let_def min_def)

lemma splice1_update: "i < length xs \<Longrightarrow> splice1 (int i) (xs[i := y]) = take i xs @ drop (Suc i) xs"
  by (simp add: splice1_nat)

lemma set_splice1: "set (splice1 j xs) \<subseteq> set xs"
  unfolding splice1_def Let_def
  by (auto dest: in_set_takeD in_set_dropD)

lemma findOpenSession_Some:
  "findOpenSession ss = Some i \<Longrightarrow>
     i < length ss \<and> length (players (ss ! i)) < PLAYERS_PER_SESSION \<and>
     (\<forall>j<i. PLAYERS_PER_SESSION \<le> length (players (ss ! j)))"
proof (induction ss arbitrary: i)
  case Nil
  then show ?case by simp
next
  case (Cons s ss)
  show ?case
  proof (cases "length (players s) < PLAYERS_PER_SESSION")
    case True
    with Cons.prems show ?thesis by simp
  next
    case False
    with Cons.prems obtain k where k: "findOpenSession ss = Some k" and i: "i = Suc k"
      by auto
    from Cons.IH [OF k] False i show ?thesis
      by (auto simp: less_Suc_eq_0_disj)
  qed
qed

lemma findOpenSession_None:
  "findOpenSession ss = None \<longleftrightarrow> (\<forall>s\<in>set ss. PLAYERS_PER_SESSION \<le> length (players s))"
  by (induction ss) auto

lemma findIndex_Some:
  "findIndex c ps = Some k \<Longrightarrow>
     k < length ps \<and> socketId (ps ! k) = c \<and> (\<forall>j<k. socketId (ps ! j) \<noteq> c)"
proof (induction ps arbitrary: k)
  case Nil
  then show ?case by simp
next
  case (Cons p ps)
  show ?case
  proof (cases "socketId p = c")
    case True
    with Cons.prems show ?thesis by simp
  next
    case False
    with Cons.prems obtain k' where k: "findIndex c ps = Some k'" and i: "k = Suc k'"
      by auto
    from Cons.IH [OF k] False i show ?thesis
      by (auto simp: less_Suc_eq_0_disj)
  qed
qed

lemma findIndex_None: "findIndex c ps = None \<longleftrightarrow> c \<notin> socketId ` set ps"
  by (induction ps) auto

lemma disconnect_scan_Some:
  "disconnect_scan c ss = Some (i, k) \<Longrightarrow>
     i < length ss \<and> findIndex c (players (ss ! i)) = Some k \<and>
     (\<forall>j<i. findIndex c (players (ss ! j)) = None)"
proof (induction ss arbitrary: i)
  case Nil
  then show ?case by simp
next
  case (Cons s ss)
  show ?case
  proof (cases "findIndex c (players s)")
    case (Some k')
    with Cons.prems show ?thesis by simp
  next
    case None
    with Cons.prems obtain i' where k: "disconnect_scan c ss = Some (i', k)" and i: "i = Suc i'"
      by auto
    from Cons.IH [OF k] None i show ?thesis
      by (auto simp: less_Suc_eq_0_disj)
  qed
qed

lemma disconnect_scan_None:
  "disconnect_scan c ss = None \<longleftrightarrow> (\<forall>s\<in>set ss. findIndex c (players s) = None)"
  by (induction ss) (auto split: option.splits)

lemma indexOf_update:
  "distinct (map oid ss) \<Longrightarrow> i < length ss \<Longrightarrow> oid y = oid (ss ! i) \<Longrightarrow>
     indexOf (ss[i := y]) y = int i"
proof -
  assume d: "distinct (map oid ss)" and i: "i < length ss" and o: "oid y = oid (ss ! i)"
  have "map oid (ss[i := y]) = map oid ss"
    using i o by (simp add: map_update list_update_same_conv)
  with d have "distinct (map oid (ss[i := y]))" by simp
  moreover have "i < length (ss[i := y])" using i by simp
  moreover have "oid y = oid (ss[i := y] ! i)" using i by simp
  ultimately show ?thesis by (rule indexOf_nth)
qed

lemma validate_name_Inr: "validate_name v = Inr n \<longleftrightarrow> v = JStr n \<and> n \<noteq> []"
  by (cases v) (auto simp: validate_name_def)

lemma valid_join_iff: "valid_join e \<longleftrightarrow> (\<exists>nm c now n. e = Find nm c now \<and> validate_name nm = Inr n)"
proof (cases e)
  case (Find nm c now)
  then show ?thesis by (cases nm) (auto simp: validate_name_def)
qed simp_all

lemma find_handler_invalid:
  "validate_name nm = Inl e \<Longrightarrow> find_handler nm c now m = (m, [Emit_error c e])"
  by (simp add: find_handler_def)

lemma find_handler_open:
  assumes "validate_name nm = Inr n" and "findOpenSession (sessions m) = Some i"
    and "distinct (map oid (sessions m))"
  shows "find_handler nm c now m =
           (m\<lparr>sessions := (sessions m)[i := (sessions m ! i)
                 \<lparr>players := players (sessions m ! i) @ [\<lparr>name = n, socketId = c\<rparr>]\<rparr>]\<rparr>,
            if Suc (length (players (sessions m ! i))) = PLAYERS_PER_SESSION
            then [Broadcast_find (int i)] else [])"
proof -
  from findOpenSession_Some [OF assms(2)]
  have i: "i < length (sessions m)" and lt: "length (players (sessions m ! i)) < PLAYERS_PER_SESSION"
    by simp_all
  let ?s' = "(sessions m ! i)\<lparr>players := players (sessions m ! i) @ [\<lparr>name = n, socketId = c\<rparr>]\<rparr>"
  have "indexOf ((sessions m)[i := ?s']) ?s' = int i"
    using assms(3) i by (intro indexOf_update) simp_all
  with assms(1,2) lt show ?thesis
    by (simp add: find_handler_def addPlayer_def Let_def)
qed

lemma find_handler_create:
  assumes "validate_name nm = Inr n" and "findOpenSession (sessions m) = None"
    and "length (sessions m) < MAX_SESSIONS"
  shows "find_handler nm c now m =
           (m\<lparr>sessions := sessions m @
                 [(new_GameSession (next_oid m) now)\<lparr>players := [\<lparr>name = n, socketId = c\<rparr>]\<rparr>],
               next_oid := Suc (next_oid m)\<rparr>, [])"
  using assms
  by (simp add: find_handler_def createSession_def addPlayer_def new_GameSession_def
      PLAYERS_PER_SESSION_def Let_def)

lemma find_handler_limit:
  assumes "validate_name nm = Inr n" and "findOpenSession (sessions m) = None"
    and "MAX_SESSIONS \<le> length (sessions m)"
  shows "find_handler nm c now m = (m, [Emit_error c Maximum_sessions_limit_reached])"
  using assms by (simp add: find_handler_def createSession_def)

lemma getScore_handler_invalid:
  "sid < 0 \<or> int (length (sessions m)) \<le> sid \<Longrightarrow>
     getScore_handler sid nm sc cb m = (m, if cb then [Callback (Error Invalid_session)] else [])"
  by (simp add: getScore_handler_def)

lemma getScore_handler_live:
  assumes "0 \<le> sid" and "sid < int (length (sessions m))" and "distinct (map oid (sessions m))"
  shows "getScore_handler sid nm sc cb m =
           (if Suc (length (playersScore (sessions m ! nat sid))) = PLAYERS_PER_SESSION
            then (m\<lparr>sessions := take (nat sid) (sessions m) @ drop (Suc (nat sid)) (sessions m)\<rparr>,
                  Broadcast_getScore sid (playersScore (sessions m ! nat sid) @ [Score_entry nm sc])
                    # (if cb then [Callback Success] else []))
            else (m\<lparr>sessions := (sessions m)[nat sid := (sessions m ! nat sid)
                       \<lparr>playersScore := playersScore (sessions m ! nat sid) @ [Score_entry nm sc]\<rparr>]\<rparr>,
                  if cb then [Callback Success] else []))"
proof -
  let ?i = "nat sid"
  let ?s' = "(sessions m ! ?i)\<lparr>playersScore := playersScore (sessions m ! ?i) @ [Score_entry nm sc]\<rparr>"
  from assms(1,2) have i: "?i < length (sessions m)" by simp
  have ix: "indexOf ((sessions m)[?i := ?s']) ?s' = int ?i"
    using assms(3) i by (intro indexOf_update) simp_all
  have sp: "splice1 (int ?i) ((sessions m)[?i := ?s']) = take ?i (sessions m) @ drop (Suc ?i) (sessions m)"
    using i by (rule splice1_update)
  from assms(1,2) have nr: "\<not> (sid < 0 \<or> int (length (sessions m)) \<le> sid)" by simp
  show ?thesis
    unfolding getScore_handler_def Let_def ix sp using nr assms(1) by simp
qed

lemma disconnect_handler_absent:
  "disconnect_scan c (sessions m) = None \<Longrightarrow> disconnect_handler c m = (m, [])"
  by (simp add: disconnect_handler_def)

lemma disconnect_handler_filling:
  assumes "disconnect_scan c (sessions m) = Some (i, k)"
    and "length (players (sessions m ! i)) < PLAYERS_PER_SESSION"
  shows "disconnect_handler c m =
           (m\<lparr>sessions := (sessions m)[i := (sessions m ! i)
                 \<lparr>players := take k (players (sessions m ! i)) @ drop (Suc k) (players (sessions m ! i))\<rparr>]\<rparr>, [])"
proof -
  from disconnect_scan_Some [OF assms(1)] have "findIndex c (players (sessions m ! i)) = Some k"
    by simp
  from findIndex_Some [OF this] have "k \<le> length (players (sessions m ! i))" by simp
  then have "splice1 (int k) (players (sessions m ! i)) =
      take k (players (sessions m ! i)) @ drop (Suc k) (players (sessions m ! i))"
    by (rule splice1_nat)
  with assms show ?thesis by (simp add: disconnect_handler_def Let_def)
qed

lemma disconnect_handler_full:
  assumes "disconnect_scan c (sessions m) = Some (i, k)"
    and "\<not> length (players (sessions m ! i)) < PLAYERS_PER_SESSION"
    and "distinct (map oid (sessions m))"
  shows "disconnect_handler c m =
           (if Suc (disconnectedPlayersCount (sessions m ! i)) = PLAYERS_PER_SESSION
            then m\<lparr>sessions := take i (sessions m) @ drop (Suc i) (sessions m)\<rparr>
            else m\<lparr>sessions := (sessions m)[i := (sessions m ! i)
                   \<lparr>playersScore := playersScore (sessions m ! i)
                        @ [Score_entry (JStr (name (players (sessions m ! i) ! k))) (JNum 0)],
                    disconnectedPlayersCount := Suc (disconnectedPlayersCount (sessions m ! i))\<rparr>]\<rparr>, [])"
proof -
  let ?s' = "(sessions m ! i)
                   \<lparr>playersScore := playersScore (sessions m ! i)
                        @ [Score_entry (JStr (name (players (sessions m ! i) ! k))) (JNum 0)],
                    disconnectedPlayersCount := Suc (disconnectedPlayersCount (sessions m ! i))\<rparr>"
  from disconnect_scan_Some [OF assms(1)] have i: "i < length (sessions m)" by simp
  note ix = indexOf_update [OF assms(3) i]
  note sp = splice1_update [OF i]
  show ?thesis
    unfolding disconnect_handler_def Let_def using assms(1,2) by (simp add: ix sp)
qed

subsection \<open>What each handler does, case by case\<close>

lemma step_cases [consumes 2, case_names same join create score complete leave forfeit teardown sweep]:
  assumes st: "step e m = (m', out)" and d: "distinct (map oid (sessions m))"
  obtains
    (same) "m' = m" "\<And>j. Broadcast_find j \<notin> set out"
  | (join) nm c now n i where
      "e = Find nm c now" "validate_name nm = Inr n"
      "findOpenSession (sessions m) = Some i"
      "i < length (sessions m)" "length (players (sessions m ! i)) < PLAYERS_PER_SESSION"
      "m' = m\<lparr>sessions := (sessions m)[i := (sessions m ! i)
                 \<lparr>players := players (sessions m ! i) @ [\<lparr>name = n, socketId = c\<rparr>]\<rparr>]\<rparr>"
      "out = (if Suc (length (players (sessions m ! i))) = PLAYERS_PER_SESSION
              then [Broadcast_find (int i)] else [])"
  | (create) nm c now n where
      "e = Find nm c now" "validate_name nm = Inr n"
      "findOpenSession (sessions m) = None"
      "m' = m\<lparr>sessions := sessions m @
                 [(new_GameSession (next_oid m) now)\<lparr>players := [\<lparr>name = n, socketId = c\<rparr>]\<rparr>],
               next_oid := Suc (next_oid m)\<rparr>"
      "out = []"
  | (score) sid nm sc cb i where
      "e = GetScore sid nm sc cb" "sid = int i" "i < length (sessions m)"
      "Suc (length (playersScore (sessions m ! i))) \<noteq> PLAYERS_PER_SESSION"
      "m' = m\<lparr>sessions := (sessions m)[i := (sessions m ! i)
                 \<lparr>playersScore := playersScore (sessions m ! i) @ [Score_entry nm sc]\<rparr>]\<rparr>"
      "out = (if cb then [Callback Success] else [])"
  | (complete) sid nm sc cb i where
      "e = GetScore sid nm sc cb" "sid = int i" "i < length (sessions m)"
      "Suc (length (playersScore (sessions m ! i))) = PLAYERS_PER_SESSION"
      "m' = m\<lparr>sessions := take i (sessions m) @ drop (Suc i) (sessions m)\<rparr>"
      "out = Broadcast_getScore sid (playersScore (sessions m ! i) @ [Score_entry nm sc])
               # (if cb then [Callback Success] else [])"
  | (leave) c i k where
      "e = Disconnect c" "disconnect_scan c (sessions m) = Some (i, k)"
      "i < length (sessions m)" "length (players (sessions m ! i)) < PLAYERS_PER_SESSION"
      "m' = m\<lparr>sessions := (sessions m)[i := (sessions m ! i)
                 \<lparr>players := take k (players (sessions m ! i)) @ drop (Suc k) (players (sessions m ! i))\<rparr>]\<rparr>"
      "out = []"
  | (forfeit) c i k where
      "e = Disconnect c" "disconnect_scan c (sessions m) = Some (i, k)"
      "i < length (sessions m)" "PLAYERS_PER_SESSION \<le> length (players (sessions m ! i))"
      "Suc (disconnectedPlayersCount (sessions m ! i)) \<noteq> PLAYERS_PER_SESSION"
      "m' = m\<lparr>sessions := (sessions m)[i := (sessions m ! i)
                   \<lparr>playersScore := playersScore (sessions m ! i)
                        @ [Score_entry (JStr (name (players (sessions m ! i) ! k))) (JNum 0)],
                    disconnectedPlayersCount := Suc (disconnectedPlayersCount (sessions m ! i))\<rparr>]\<rparr>"
      "out = []"
  | (teardown) c i k where
      "e = Disconnect c" "disconnect_scan c (sessions m) = Some (i, k)"
      "i < length (sessions m)" "PLAYERS_PER_SESSION \<le> length (players (sessions m ! i))"
      "Suc (disconnectedPlayersCount (sessions m ! i)) = PLAYERS_PER_SESSION"
      "m' = m\<lparr>sessions := take i (sessions m) @ drop (Suc i) (sessions m)\<rparr>"
      "out = []"
  | (sweep) now where
      "e = Cleanup now" "m' = cleanup now m" "out = []"
proof (cases e)
  case (Find nm c now)
  show ?thesis
  proof (cases "validate_name nm")
    case (Inl err)
    from st Find find_handler_invalid [OF Inl] have "m' = m" "out = [Emit_error c err]"
      by simp_all
    then show ?thesis by (intro same) simp_all
  next
    case (Inr n)
    show ?thesis
    proof (cases "findOpenSession (sessions m)")
      case (Some i)
      from findOpenSession_Some [OF Some]
      have i: "i < length (sessions m)" "length (players (sessions m ! i)) < PLAYERS_PER_SESSION"
        by simp_all
      from st Find find_handler_open [OF Inr Some d, of c now] show ?thesis
        by (intro join [OF Find Inr Some i]) simp_all
    next
      case None
      show ?thesis
      proof (cases "length (sessions m) < MAX_SESSIONS")
        case True
        from st Find find_handler_create [OF Inr None True, of c now] show ?thesis
          by (intro create [OF Find Inr None]) simp_all
      next
        case False
        then have "MAX_SESSIONS \<le> length (sessions m)" by simp
        from st Find find_handler_limit [OF Inr None this, of c now]
        have "m' = m" "out = [Emit_error c Maximum_sessions_limit_reached]" by simp_all
        then show ?thesis by (intro same) simp_all
      qed
    qed
  qed
next
  case (GetScore sid nm sc cb)
  show ?thesis
  proof (cases "sid < 0 \<or> int (length (sessions m)) \<le> sid")
    case True
    from st GetScore getScore_handler_invalid [OF True, of nm sc cb]
    have "m' = m" "out = (if cb then [Callback (Error Invalid_session)] else [])" by simp_all
    then show ?thesis by (intro same) simp_all
  next
    case False
    then have r: "0 \<le> sid" "sid < int (length (sessions m))" by simp_all
    then have i: "sid = int (nat sid)" "nat sid < length (sessions m)" by simp_all
    note eq = getScore_handler_live [OF r d, of nm sc cb]
    show ?thesis
    proof (cases "Suc (length (playersScore (sessions m ! nat sid))) = PLAYERS_PER_SESSION")
      case True
      from st GetScore eq True show ?thesis
        by (intro complete [OF GetScore i True]) simp_all
    next
      case False
      from st GetScore eq False show ?thesis
        by (intro score [OF GetScore i False]) simp_all
    qed
  qed
next
  case (Disconnect c)
  show ?thesis
  proof (cases "disconnect_scan c (sessions m)")
    case None
    from st Disconnect disconnect_handler_absent [OF None] have "m' = m" "out = []" by simp_all
    then show ?thesis by (intro same) simp_all
  next
    case (Some ik)
    then obtain i k where sc: "disconnect_scan c (sessions m) = Some (i, k)"
      by (cases ik) simp
    from disconnect_scan_Some [OF sc] have i: "i < length (sessions m)" by simp
    show ?thesis
    proof (cases "length (players (sessions m ! i)) < PLAYERS_PER_SESSION")
      case True
      from st Disconnect disconnect_handler_filling [OF sc True] show ?thesis
        by (intro leave [OF Disconnect sc i True]) simp_all
    next
      case False
      then have full: "PLAYERS_PER_SESSION \<le> length (players (sessions m ! i))" by simp
      note eq = disconnect_handler_full [OF sc False d]
      show ?thesis
      proof (cases "Suc (disconnectedPlayersCount (sessions m ! i)) = PLAYERS_PER_SESSION")
        case True
        from st Disconnect eq True show ?thesis
          by (intro teardown [OF Disconnect sc i full True]) simp_all
      next
        case False
        from st Disconnect eq False show ?thesis
          by (intro forfeit [OF Disconnect sc i full False]) simp_all
      qed
    qed
  qed
next
  case (Cleanup now)
  with st show ?thesis by (intro sweep [OF Cleanup]) simp_all
qed

subsection \<open>Well-formed stores\<close>

lemma set_remove_nth: "set (take i xs @ drop (Suc i) xs) \<subseteq> set xs"
  by (auto dest: in_set_takeD in_set_dropD)

lemma distinct_remove_nth:
  "distinct (map f xs) \<Longrightarrow> distinct (map f (take i xs @ drop (Suc i) xs))"
proof -
  assume d: "distinct (map f xs)"
  have "set (take i (map f xs)) \<inter> set (drop (Suc i) (map f xs)) = {}"
    using d by (intro set_take_disj_set_drop_if_distinct) simp_all
  moreover have "distinct (take i (map f xs))" "distinct (drop (Suc i) (map f xs))"
    using d by (simp_all only: distinct_take distinct_drop)
  ultimately have "distinct (take i (map f xs) @ drop (Suc i) (map f xs))"
    by (simp only: distinct_append simp_thms)
  then show ?thesis
    by (simp only: take_map drop_map map_append)
qed

lemma map_oid_update:
  "i < length ss \<Longrightarrow> oid y = oid (ss ! i) \<Longrightarrow> map oid (ss[i := y]) = map oid ss"
  by (simp add: map_update list_update_same_conv)

lemma wf_store_init: "wf_store init"
  by (simp add: wf_store_def init_def)

lemma wf_store_step:
  assumes "step e m = (m', out)" and "wf_store m"
  shows "wf_store m'"
proof -
  from assms(2) have d: "distinct (map oid (sessions m))"
    and b: "\<And>s. s \<in> set (sessions m) \<Longrightarrow> oid s < next_oid m"
    by (simp_all add: wf_store_def)
  have upd: "wf_store (m\<lparr>sessions := (sessions m)[i := y]\<rparr>)"
    if "i < length (sessions m)" "oid y = oid (sessions m ! i)" for i y
  proof -
    from that have "oid y < next_oid m" using b by simp
    with that d b show ?thesis
      by (auto simp: wf_store_def map_oid_update dest!: set_update_subset_insert [THEN subsetD])
  qed
  have rem: "wf_store (m\<lparr>sessions := take i (sessions m) @ drop (Suc i) (sessions m)\<rparr>)" for i
    unfolding wf_store_def using distinct_remove_nth [OF d, of i] b
      set_remove_nth [of i "sessions m"] by (auto simp del: set_append)
  from assms(1) d show ?thesis
  proof (cases rule: step_cases)
    case same
    with assms(2) show ?thesis by simp
  next
    case (join nm c now n i)
    then show ?thesis using upd [of i] by simp
  next
    case (create nm c now n)
    with d b show ?thesis
      by (auto simp: wf_store_def new_GameSession_def less_Suc_eq dest: b)
  next
    case (score sid nm sc cb i)
    then show ?thesis using upd [of i] by simp
  next
    case (complete sid nm sc cb i)
    then show ?thesis using rem by simp
  next
    case (leave c i k)
    then show ?thesis using upd [of i] by simp
  next
    case (forfeit c i k)
    then show ?thesis using upd [of i] by simp
  next
    case (teardown c i k)
    then show ?thesis using rem by simp
  next
    case (sweep now)
    with d b show ?thesis
      by (auto simp: wf_store_def cleanup_def distinct_map_filter)
  qed
qed

lemma wf_store_run: "wf_store m \<Longrightarrow> wf_store (run evs m)"
proof (induction evs arbitrary: m)
  case Nil
  then show ?case by simp
next
  case (Cons e evs)
  have "wf_store (fst (step e m))"
    using wf_store_step [OF _ Cons.prems] by (cases "step e m") simp
  then show ?case using Cons.IH by simp
qed

subsection \<open>No step overfills a session\<close>

lemma players_bounded_step:
  assumes "step e m = (m', out)" and "distinct (map oid (sessions m))"
    and b: "\<And>s. s \<in> set (sessions m) \<Longrightarrow> length (players s) \<le> PLAYERS_PER_SESSION"
    and s: "s \<in> set (sessions m')"
  shows "length (players s) \<le> PLAYERS_PER_SESSION"
  using assms(1,2)
proof (cases rule: step_cases)
  case same
  with b s show ?thesis by simp
next
  case (join nm c now n i)
  with s b show ?thesis
    by (auto dest!: set_update_subset_insert [THEN subsetD])
next
  case (create nm c now n)
  with s b show ?thesis
    by (auto simp: new_GameSession_def PLAYERS_PER_SESSION_def)
next
  case (score sid nm sc cb i)
  with s b show ?thesis
    by (auto dest!: set_update_subset_insert [THEN subsetD])
next
  case (complete sid nm sc cb i)
  with s b set_remove_nth [of i "sessions m"] show ?thesis
    by (auto simp del: set_append)
next
  case (leave c i k)
  with s b show ?thesis
    by (auto dest!: set_update_subset_insert [THEN subsetD])
next
  case (forfeit c i k)
  with s b show ?thesis
    by (auto dest!: set_update_subset_insert [THEN subsetD])
next
  case (teardown c i k)
  with s b set_remove_nth [of i "sessions m"] show ?thesis
    by (auto simp del: set_append)
next
  case (sweep now)
  with s b show ?thesis by (auto simp: cleanup_def)
qed

lemma players_bounded_run:
  assumes "wf_store m"
    and "\<forall>s\<in>set (sessions m). length (players s) \<le> PLAYERS_PER_SESSION"
  shows "\<forall>s\<in>set (sessions (run evs m)). length (players s) \<le> PLAYERS_PER_SESSION"
  using assms
proof (induction evs arbitrary: m)
  case Nil
  then show ?case by simp
next
  case (Cons e evs)
  obtain m' out where st: "step e m = (m', out)" by (cases "step e m")
  from Cons.prems(1) have d: "distinct (map oid (sessions m))" by (simp add: wf_store_def)
  have "wf_store m'" by (rule wf_store_step [OF st Cons.prems(1)])
  moreover have "\<forall>s\<in>set (sessions m'). length (players s) \<le> PLAYERS_PER_SESSION"
    using players_bounded_step [OF st d] Cons.prems(2) by blast
  ultimately show ?case using Cons.IH [of m'] st by simp
qed

subsection \<open>The first session with a free seat\<close>

lemma findOpenSession_first:
  "i < length ss \<Longrightarrow> length (players (ss ! i)) < PLAYERS_PER_SESSION \<Longrightarrow>
     (\<forall>j<i. PLAYERS_PER_SESSION \<le> length (players (ss ! j))) \<Longrightarrow> findOpenSession ss = Some i"
proof (induction ss arbitrary: i)
  case Nil
  then show ?case by simp
next
  case (Cons s ss)
  show ?case
  proof (cases i)
    case 0
    with Cons.prems show ?thesis by simp
  next
    case (Suc k)
    with Cons.prems have "\<not> length (players s) < PLAYERS_PER_SESSION" by fastforce
    moreover have "findOpenSession ss = Some k"
      using Cons.prems Suc by (intro Cons.IH) auto
    ultimately show ?thesis using Suc by simp
  qed
qed

lemma findOpenSession_exists:
  "i < length ss \<Longrightarrow> length (players (ss ! i)) < PLAYERS_PER_SESSION \<Longrightarrow>
     \<exists>j\<le>i. findOpenSession ss = Some j"
proof (induction ss arbitrary: i)
  case Nil
  then show ?case by simp
next
  case (Cons s ss)
  show ?case
  proof (cases "length (players s) < PLAYERS_PER_SESSION")
    case True
    then show ?thesis by simp
  next
    case False
    with Cons.prems obtain k where k: "i = Suc k" by (cases i) auto
    with Cons.prems have "\<exists>j\<le>k. findOpenSession ss = Some j"
      by (intro Cons.IH) auto
    with False k show ?thesis by auto
  qed
qed

subsection \<open>Scores of a session nobody has forfeited\<close>

lemma fresh_scores_step:
  assumes "step e m = (m', out)" and "distinct (map oid (sessions m))"
    and b: "\<And>s. s \<in> set (sessions m) \<Longrightarrow> disconnectedPlayersCount s = 0 \<Longrightarrow>
               length (playersScore s) < PLAYERS_PER_SESSION"
    and s: "s \<in> set (sessions m')" and z: "disconnectedPlayersCount s = 0"
  shows "length (playersScore s) < PLAYERS_PER_SESSION"
  using assms(1,2)
proof (cases rule: step_cases)
  case same
  with b s z show ?thesis by simp
next
  case (join nm c now n i)
  with s z b show ?thesis
    by (auto dest!: set_update_subset_insert [THEN subsetD])
next
  case (create nm c now n)
  with s z b show ?thesis
    by (auto simp: new_GameSession_def PLAYERS_PER_SESSION_def)
next
  case (score sid nm sc cb i)
  let ?y = "(sessions m ! i)\<lparr>playersScore := playersScore (sessions m ! i) @ [Score_entry nm sc]\<rparr>"
  from s score(5) have "s = ?y \<or> s \<in> set (sessions m)"
    by (auto dest!: set_update_subset_insert [THEN subsetD])
  then show ?thesis
  proof
    assume e: "s = ?y"
    with z have "disconnectedPlayersCount (sessions m ! i) = 0" by simp
    with score(3) b have "length (playersScore (sessions m ! i)) < PLAYERS_PER_SESSION" by simp
    with score(4) e show ?thesis by simp
  next
    assume "s \<in> set (sessions m)"
    with b z show ?thesis by simp
  qed
next
  case (complete sid nm sc cb i)
  with s z b set_remove_nth [of i "sessions m"] show ?thesis
    by (auto simp del: set_append)
next
  case (leave c i k)
  with s z b show ?thesis
    by (auto dest!: set_update_subset_insert [THEN subsetD])
next
  case (forfeit c i k)
  with s z b show ?thesis
    by (auto dest!: set_update_subset_insert [THEN subsetD])
next
  case (teardown c i k)
  with s z b set_remove_nth [of i "sessions m"] show ?thesis
    by (auto simp del: set_append)
next
  case (sweep now)
  with s z b show ?thesis by (auto simp: cleanup_def)
qed

lemma fresh_scores_run:
  assumes "wf_store m"
    and "\<forall>s\<in>set (sessions m). disconnectedPlayersCount s = 0 \<longrightarrow>
           length (playersScore s) < PLAYERS_PER_SESSION"
  shows "\<forall>s\<in>set (sessions (run evs m)). disconnectedPlayersCount s = 0 \<longrightarrow>
           length (playersScore s) < PLAYERS_PER_SESSION"
  using assms
proof (induction evs arbitrary: m)
  case Nil
  then show ?case by simp
next
  case (Cons e evs)
  obtain m' out where st: "step e m = (m', out)" by (cases "step e m")
  from Cons.prems(1) have d: "distinct (map oid (sessions m))" by (simp add: wf_store_def)
  have "wf_store m'" by (rule wf_store_step [OF st Cons.prems(1)])
  moreover have "\<forall>s\<in>set (sessions m'). disconnectedPlayersCount s = 0 \<longrightarrow>
           length (playersScore s) < PLAYERS_PER_SESSION"
    using fresh_scores_step [OF st d] Cons.prems(2) by blast
  ultimately show ?case using Cons.IH [of m'] st by simp
qed

subsection \<open>Sockets seated in the store\<close>

lemma concat_map_update:
  "i < length xs \<Longrightarrow>
     concat (map f (xs[i := y])) = concat (map f (take i xs)) @ f y @ concat (map f (drop (Suc i) xs))"
  by (simp add: upd_conv_take_nth_drop)

lemma concat_map_nth:
  "i < length xs \<Longrightarrow>
     concat (map f xs) = concat (map f (take i xs)) @ f (xs ! i) @ concat (map f (drop (Suc i) xs))"
proof -
  assume "i < length xs"
  then have "xs = take i xs @ xs ! i # drop (Suc i) xs" by (rule id_take_nth_drop)
  then have "concat (map f xs) = concat (map f (take i xs @ xs ! i # drop (Suc i) xs))" by simp
  then show ?thesis by simp
qed

lemma concat_map_remove_nth:
  "i < length xs \<Longrightarrow>
     distinct (concat (map f xs)) \<Longrightarrow> distinct (concat (map f (take i xs @ drop (Suc i) xs)))"
  by (subst (asm) concat_map_nth [of i xs f]) auto

lemma set_concat_map_remove_nth:
  "set (concat (map f (take i xs @ drop (Suc i) xs))) \<subseteq> set (concat (map f xs))"
proof
  fix x
  assume "x \<in> set (concat (map f (take i xs @ drop (Suc i) xs)))"
  then obtain y where "y \<in> set (take i xs @ drop (Suc i) xs)" "x \<in> set (f y)"
    unfolding set_concat set_map by blast
  with set_remove_nth [of i xs] have "y \<in> set xs" "x \<in> set (f y)" by blast+
  then show "x \<in> set (concat (map f xs))" by auto
qed

lemma distinct_concat_map_filter:
  "distinct (concat (map f xs)) \<Longrightarrow> distinct (concat (map f (filter P xs)))"
  by (induction xs) auto

lemma all_sockets_replace:
  assumes i: "i < length (sessions m)"
    and d: "distinct (all_sockets m)"
    and sub: "set (session_sockets y) \<subseteq> set (session_sockets (sessions m ! i)) \<union> X"
    and dy: "distinct (session_sockets y)"
    and fresh: "X \<inter> set (all_sockets m) = {}"
  shows "distinct (all_sockets (m\<lparr>sessions := (sessions m)[i := y]\<rparr>))"
    and "set (all_sockets (m\<lparr>sessions := (sessions m)[i := y]\<rparr>)) \<subseteq> set (all_sockets m) \<union> X"
proof -
  let ?A = "concat (map session_sockets (take i (sessions m)))"
  let ?B = "session_sockets (sessions m ! i)"
  let ?C = "concat (map session_sockets (drop (Suc i) (sessions m)))"
  have old: "all_sockets m = ?A @ ?B @ ?C"
    unfolding all_sockets_def by (rule concat_map_nth [OF i])
  have new: "all_sockets (m\<lparr>sessions := (sessions m)[i := y]\<rparr>) = ?A @ session_sockets y @ ?C"
    unfolding all_sockets_def using concat_map_update [OF i] by simp
  from d fresh sub dy show "distinct (all_sockets (m\<lparr>sessions := (sessions m)[i := y]\<rparr>))"
    unfolding old new by (simp only: distinct_append set_append) blast
  from sub show "set (all_sockets (m\<lparr>sessions := (sessions m)[i := y]\<rparr>)) \<subseteq> set (all_sockets m) \<union> X"
    unfolding old new by (simp only: set_append) blast
qed

lemma sockets_step:
  assumes st: "step e m = (m', out)" and "distinct (map oid (sessions m))"
    and d: "distinct (all_sockets m)"
    and fresh: "set (find_sockets [e]) \<inter> set (all_sockets m) = {}"
  shows "distinct (all_sockets m') \<and> set (all_sockets m') \<subseteq> set (all_sockets m) \<union> set (find_sockets [e])"
  using assms(1,2)
proof (cases rule: step_cases)
  case same
  with d show ?thesis by auto
next
  case (join nm c now n i)
  let ?y = "(sessions m ! i)\<lparr>players := players (sessions m ! i) @ [\<lparr>name = n, socketId = c\<rparr>]\<rparr>"
  from join(1) fresh have c: "{c} \<inter> set (all_sockets m) = {}" by simp
  have "set (session_sockets (sessions m ! i)) \<subseteq> set (all_sockets m)"
    using nth_mem [OF join(4)] by (auto simp: all_sockets_def)
  with c have ci: "c \<notin> set (session_sockets (sessions m ! i))" by auto
  have di: "distinct (session_sockets (sessions m ! i))"
    using d join(4) unfolding all_sockets_def
    by (subst (asm) concat_map_nth [of i]) simp_all
  have sub: "set (session_sockets ?y) \<subseteq> set (session_sockets (sessions m ! i)) \<union> {c}"
    by (auto simp: session_sockets_def)
  have dy: "distinct (session_sockets ?y)"
    using di ci by (simp add: session_sockets_def)
  from all_sockets_replace [OF join(4) d sub dy c] join(1,6) show ?thesis by simp
next
  case (create nm c now n)
  from create(1) fresh have "c \<notin> set (all_sockets m)" by simp
  with d create show ?thesis
    by (auto simp: all_sockets_def session_sockets_def new_GameSession_def)
next
  case (score sid nm sc cb i)
  let ?y = "(sessions m ! i)\<lparr>playersScore := playersScore (sessions m ! i) @ [Score_entry nm sc]\<rparr>"
  have e: "session_sockets ?y = session_sockets (sessions m ! i)"
    by (simp add: session_sockets_def)
  have di: "distinct (session_sockets (sessions m ! i))"
    using d score(3) unfolding all_sockets_def
    by (subst (asm) concat_map_nth [of i]) simp_all
  from all_sockets_replace [OF score(3) d, of ?y "{}"] e di score(5) show ?thesis by auto
next
  case (complete sid nm sc cb i)
  from concat_map_remove_nth [OF complete(3), of session_sockets] d
    set_concat_map_remove_nth [of session_sockets i "sessions m"] complete(5)
  show ?thesis by (auto simp: all_sockets_def simp del: set_append map_append)
next
  case (leave c i k)
  let ?ps = "players (sessions m ! i)"
  let ?y = "(sessions m ! i)\<lparr>players := take k ?ps @ drop (Suc k) ?ps\<rparr>"
  have di: "distinct (session_sockets (sessions m ! i))"
    using d leave(3) unfolding all_sockets_def
    by (subst (asm) concat_map_nth [of i]) simp_all
  have sub: "set (session_sockets ?y) \<subseteq> set (session_sockets (sessions m ! i)) \<union> {}"
    by (auto simp: session_sockets_def dest: in_set_takeD in_set_dropD)
  have dy: "distinct (session_sockets ?y)"
    using distinct_remove_nth [of socketId ?ps k] di by (simp add: session_sockets_def)
  from all_sockets_replace [OF leave(3) d sub dy] leave(5) show ?thesis by auto
next
  case (forfeit c i k)
  let ?y = "(sessions m ! i)
                   \<lparr>playersScore := playersScore (sessions m ! i)
                        @ [Score_entry (JStr (name (players (sessions m ! i) ! k))) (JNum 0)],
                    disconnectedPlayersCount := Suc (disconnectedPlayersCount (sessions m ! i))\<rparr>"
  have e: "session_sockets ?y = session_sockets (sessions m ! i)"
    by (simp add: session_sockets_def)
  have di: "distinct (session_sockets (sessions m ! i))"
    using d forfeit(3) unfolding all_sockets_def
    by (subst (asm) concat_map_nth [of i]) simp_all
  from all_sockets_replace [OF forfeit(3) d, of ?y "{}"] e di forfeit(6) show ?thesis by auto
next
  case (teardown c i k)
  from concat_map_remove_nth [OF teardown(3), of session_sockets] d
    set_concat_map_remove_nth [of session_sockets i "sessions m"] teardown(6)
  show ?thesis by (auto simp: all_sockets_def simp del: set_append map_append)
next
  case (sweep now)
  with d distinct_concat_map_filter [of session_sockets "sessions m"] show ?thesis
    by (auto simp: all_sockets_def cleanup_def)
qed

lemma sockets_step_unseated:
  assumes st: "step e m = (m', out)" and d: "distinct (map oid (sessions m))"
    and ds: "distinct (all_sockets m)" and u: "join_unseated e m"
  shows "distinct (all_sockets m')"
proof (cases e)
  case (Find nm c now)
  show ?thesis
  proof (cases "valid_join e")
    case True
    with u Find have "set (find_sockets [e]) \<inter> set (all_sockets m) = {}" by simp
    from sockets_step [OF st d ds this] show ?thesis by simp
  next
    case False
    with Find obtain err where "validate_name nm = Inl err"
      using valid_join_iff [of e] by (cases "validate_name nm") auto
    from find_handler_invalid [OF this, of c now m] st Find have "m' = m" by simp
    with ds show ?thesis by simp
  qed
next
  case (GetScore sid nm sc cb)
  then have "set (find_sockets [e]) \<inter> set (all_sockets m) = {}" by simp
  from sockets_step [OF st d ds this] show ?thesis by simp
next
  case (Disconnect c)
  then have "set (find_sockets [e]) \<inter> set (all_sockets m) = {}" by simp
  from sockets_step [OF st d ds this] show ?thesis by simp
next
  case (Cleanup now)
  then have "set (find_sockets [e]) \<inter> set (all_sockets m) = {}" by simp
  from sockets_step [OF st d ds this] show ?thesis by simp
qed

lemma sockets_run_unseated:
  assumes "wf_store m" and "distinct (all_sockets m)" and "joins_unseated evs m"
  shows "distinct (all_sockets (run evs m))"
  using assms
proof (induction evs arbitrary: m)
  case Nil
  then show ?case by simp
next
  case (Cons e evs)
  obtain m' out where st: "step e m = (m', out)" by (cases "step e m")
  from Cons.prems(1) have d: "distinct (map oid (sessions m))" by (simp add: wf_store_def)
  from Cons.prems(3) st have u: "join_unseated e m" and rest: "joins_unseated evs m'"
    by simp_all
  have w': "wf_store m'" by (rule wf_store_step [OF st Cons.prems(1)])
  have d': "distinct (all_sockets m')"
    by (rule sockets_step_unseated [OF st d Cons.prems(2) u])
  from Cons.IH [OF w' d' rest] st show ?case by simp
qed

subsection \<open>The log of announced sessions\<close>

lemma announced_none: "(\<And>j. Broadcast_find j \<notin> set out) \<Longrightarrow> concat (map (announced m) out) = []"
proof (induction out)
  case Nil
  then show ?case by simp
next
  case (Cons a out)
  from Cons.prems have "announced m a = []" by (cases a) auto
  moreover from Cons.prems have "concat (map (announced m) out) = []"
    by (intro Cons.IH) auto
  ultimately show ?case by simp
qed

lemma in_set_update_distinct:
  assumes "s \<in> set (ss[i := y])" and "i < length ss" and "distinct (map oid ss)"
  shows "s = y \<or> (s \<in> set ss \<and> oid s \<noteq> oid (ss ! i))"
proof -
  from assms(1) obtain j where j: "j < length ss" "s = ss[i := y] ! j"
    by (auto simp: in_set_conv_nth)
  show ?thesis
  proof (cases "j = i")
    case True
    with j assms(2) show ?thesis by simp
  next
    case False
    with j have s: "s = ss ! j" by simp
    from assms(3) j(1) assms(2) False have "map oid ss ! j \<noteq> map oid ss ! i"
      by (simp only: nth_eq_iff_index_eq length_map not_False_eq_True)
    with j(1) assms(2) s show ?thesis by simp
  qed
qed

lemma log_inv_replace:
  assumes inv: "log_inv m log" and i: "i < length (sessions m)"
    and o: "oid y = oid (sessions m ! i)"
    and p: "length (players y) = PLAYERS_PER_SESSION \<longleftrightarrow>
              length (players (sessions m ! i)) = PLAYERS_PER_SESSION"
  shows "log_inv (m\<lparr>sessions := (sessions m)[i := y]\<rparr>) log"
proof -
  from inv have w: "wf_store m" and d: "distinct (map oid (sessions m))"
    by (simp_all add: log_inv_def wf_store_def)
  have w': "wf_store (m\<lparr>sessions := (sessions m)[i := y]\<rparr>)"
    using w i o unfolding wf_store_def
    by (auto simp: map_oid_update dest!: set_update_subset_insert [THEN subsetD])
  have "oid s \<in> set log \<longleftrightarrow> length (players s) = PLAYERS_PER_SESSION"
    if "s \<in> set ((sessions m)[i := y])" for s
  proof -
    from in_set_update_distinct [OF that i d]
    consider "s = y" | "s \<in> set (sessions m)" by blast
    then show ?thesis
    proof cases
      case 1
      with inv i o p show ?thesis by (simp add: log_inv_def)
    next
      case 2
      with inv show ?thesis by (simp add: log_inv_def)
    qed
  qed
  with inv w' show ?thesis by (simp add: log_inv_def)
qed

lemma log_inv_remove:
  assumes inv: "log_inv m log"
  shows "log_inv (m\<lparr>sessions := take i (sessions m) @ drop (Suc i) (sessions m)\<rparr>) log"
proof -
  from inv have d: "distinct (map oid (sessions m))"
    by (simp add: log_inv_def wf_store_def)
  have sub: "set (take i (sessions m) @ drop (Suc i) (sessions m)) \<subseteq> set (sessions m)"
    by (rule set_remove_nth)
  have "wf_store (m\<lparr>sessions := take i (sessions m) @ drop (Suc i) (sessions m)\<rparr>)"
    using inv distinct_remove_nth [OF d, of i] sub
    unfolding log_inv_def wf_store_def by (auto simp del: set_append)
  with inv sub show ?thesis
    unfolding log_inv_def by (auto simp del: set_append)
qed

lemma log_inv_step:
  assumes st: "step e m = (m', out)" and inv: "log_inv m log"
  shows "log_inv m' (log @ concat (map (announced m') out))"
proof -
  from inv have w: "wf_store m" and d: "distinct (map oid (sessions m))"
    and dl: "distinct log" and bl: "\<And>r. r \<in> set log \<Longrightarrow> r < next_oid m"
    and full: "\<And>s. s \<in> set (sessions m) \<Longrightarrow>
        oid s \<in> set log \<longleftrightarrow> length (players s) = PLAYERS_PER_SESSION"
    by (simp_all add: log_inv_def wf_store_def)
  from st d show ?thesis
  proof (cases rule: step_cases)
    case same
    from same(2) have out: "concat (map (announced m') out) = []" by (rule announced_none)
    from inv same(1) show ?thesis unfolding out by simp
  next
    case (join nm c now n i)
    let ?old = "sessions m ! i"
    let ?y = "?old\<lparr>players := players ?old @ [\<lparr>name = n, socketId = c\<rparr>]\<rparr>"
    have w': "wf_store m'" by (rule wf_store_step [OF st w])
    from join(4) have mem: "?old \<in> set (sessions m)" by simp
    from full [OF mem] join(5) have notin: "oid ?old \<notin> set log" by simp
    show ?thesis
    proof (cases "Suc (length (players ?old)) = PLAYERS_PER_SESSION")
      case True
      with join(4,6,7) have out: "concat (map (announced m') out) = [oid ?old]" by simp
      have "oid s \<in> set (log @ [oid ?old]) \<longleftrightarrow> length (players s) = PLAYERS_PER_SESSION"
        if "s \<in> set (sessions m')" for s
      proof -
        from that join(6) have "s \<in> set ((sessions m)[i := ?y])" by simp
        from in_set_update_distinct [OF this join(4) d]
        consider "s = ?y" | "s \<in> set (sessions m)" "oid s \<noteq> oid ?old" by blast
        then show ?thesis
        proof cases
          case 1
          with True show ?thesis by simp
        next
          case 2
          with full show ?thesis by simp
        qed
      qed
      moreover have "\<forall>r\<in>set (log @ [oid ?old]). r < next_oid m'"
        using bl w mem join(6) by (auto simp: wf_store_def)
      ultimately show ?thesis
        unfolding out log_inv_def using w' dl notin by simp
    next
      case False
      with join(7) have out: "concat (map (announced m') out) = []" by simp
      have "length (players ?y) = PLAYERS_PER_SESSION \<longleftrightarrow>
              length (players ?old) = PLAYERS_PER_SESSION"
        using False join(5) by simp
      from log_inv_replace [OF inv join(4) _ this] join(6) show ?thesis
        unfolding out by simp
    qed
  next
    case (create nm c now n)
    have w': "wf_store m'" by (rule wf_store_step [OF st w])
    have nl: "next_oid m \<notin> set log" using bl by blast
    from create(4) have "oid s \<in> set log \<longleftrightarrow> length (players s) = PLAYERS_PER_SESSION"
      if "s \<in> set (sessions m')" for s
      using that full nl by (auto simp: new_GameSession_def PLAYERS_PER_SESSION_def)
    moreover have "\<forall>r\<in>set log. r < next_oid m'"
      using bl create(4) by (auto simp: less_Suc_eq)
    ultimately show ?thesis
      using create(5) w' dl by (simp add: log_inv_def)
  next
    case (score sid nm sc cb i)
    have out: "concat (map (announced m') out) = []"
      using score(6) by simp
    from log_inv_replace [OF inv score(3)] score(5) show ?thesis
      unfolding out by simp
  next
    case (complete sid nm sc cb i)
    have out: "concat (map (announced m') out) = []"
      using complete(6) by simp
    from log_inv_remove [OF inv] complete(5) show ?thesis
      unfolding out by simp
  next
    case (leave c i k)
    let ?old = "sessions m ! i"
    let ?y = "?old\<lparr>players := take k (players ?old) @ drop (Suc k) (players ?old)\<rparr>"
    have "length (players ?y) \<le> length (players ?old)" by simp
    with leave(4) have "length (players ?y) = PLAYERS_PER_SESSION \<longleftrightarrow>
              length (players ?old) = PLAYERS_PER_SESSION"
      by linarith
    from log_inv_replace [OF inv leave(3) _ this] leave(5,6) show ?thesis
      by simp
  next
    case (forfeit c i k)
    from log_inv_replace [OF inv forfeit(3)] forfeit(6,7) show ?thesis
      by simp
  next
    case (teardown c i k)
    from log_inv_remove [OF inv] teardown(6,7) show ?thesis
      by simp
  next
    case (sweep now)
    have w': "wf_store m'" by (rule wf_store_step [OF st w])
    with sweep dl bl full show ?thesis
      by (auto simp: log_inv_def cleanup_def)
  qed
qed

lemma log_inv_run:
  "log_inv m log \<Longrightarrow> log_inv (run evs m) (log @ full_log evs m)"
proof (induction evs arbitrary: m log)
  case Nil
  then show ?case by simp
next
  case (Cons e evs)
  obtain m' out where st: "step e m = (m', out)" by (cases "step e m")
  from log_inv_step [OF st Cons.prems]
  have "log_inv m' (log @ concat (map (announced m') out))" .
  from Cons.IH [OF this] st show ?case by simp
qed

lemma log_inv_init: "log_inv init []"
  by (simp add: log_inv_def wf_store_init) (simp add: init_def)

lemma count_list_distinct:
  "distinct xs \<Longrightarrow> count_list xs x = (if x \<in> set xs then 1 else 0)"
  by (induction xs) auto

lemma find_broadcast_iff:
  assumes d: "distinct (map oid (sessions m))"
  shows "Broadcast_find j \<in> set (snd (step e m)) \<longleftrightarrow>
           valid_join e \<and>
           (\<exists>i. findOpenSession (sessions m) = Some i \<and> j = int i \<and>
                Suc (length (players (sessions m ! i))) = PLAYERS_PER_SESSION)"
proof (cases e)
  case (Find nm c now)
  show ?thesis
  proof (cases "validate_name nm")
    case (Inl err)
    then have nv: "\<not> valid_join e" using Find by (simp add: valid_join_iff)
    have "snd (step e m) = [Emit_error c err]"
      using Find find_handler_invalid [OF Inl, of c now m] by simp
    with nv show ?thesis by simp
  next
    case (Inr n)
    then have v: "valid_join e" using Find valid_join_iff by blast
    show ?thesis
    proof (cases "findOpenSession (sessions m)")
      case (Some i)
      from Find v find_handler_open [OF Inr Some d, of c now] Some show ?thesis by auto
    next
      case None
      show ?thesis
      proof (cases "length (sessions m) < MAX_SESSIONS")
        case True
        from Find find_handler_create [OF Inr None True, of c now] None show ?thesis by simp
      next
        case False
        then have "MAX_SESSIONS \<le> length (sessions m)" by simp
        from Find find_handler_limit [OF Inr None this, of c now] None show ?thesis by simp
      qed
    qed
  qed
next
  case (GetScore sid nm sc cb)
  show ?thesis
  proof (cases "sid < 0 \<or> int (length (sessions m)) \<le> sid")
    case True
    from GetScore getScore_handler_invalid [OF True, of nm sc cb] show ?thesis by simp
  next
    case False
    then have r: "0 \<le> sid" "sid < int (length (sessions m))" by simp_all
    from GetScore getScore_handler_live [OF r d, of nm sc cb] show ?thesis by simp
  qed
next
  case (Disconnect c)
  show ?thesis
  proof (cases "disconnect_scan c (sessions m)")
    case None
    from Disconnect disconnect_handler_absent [OF None] show ?thesis by simp
  next
    case (Some ik)
    then obtain i k where sc: "disconnect_scan c (sessions m) = Some (i, k)"
      by (cases ik) simp
    show ?thesis
    proof (cases "length (players (sessions m ! i)) < PLAYERS_PER_SESSION")
      case True
      from Disconnect disconnect_handler_filling [OF sc True] show ?thesis by simp
    next
      case False
      from Disconnect disconnect_handler_full [OF sc False d] show ?thesis by simp
    qed
  qed
next
  case (Cleanup now)
  then show ?thesis by simp
qed

section \<open>The claims\<close>

subsection \<open>C1: session identifiers\<close>

text \<open>
  Claim C1 (an issued session id never comes to denote another live session). The id
  sent in the \<open>find\<close> broadcast is the session's position in the array. Two lobbies fill
  and are announced as 0 and 1; the four scores of lobby 0 remove it, and id 0 now
  denotes the object that was announced as 1 (sockets 5 to 8).
\<close>

theorem session_id_denotes_another_session_after_removal:
  "trace (lobby_events @ second_lobby_events) init = [Broadcast_find 0, Broadcast_find 1] \<and>
   map oid (sessions two_lobbies) = [0, 1] \<and>
   map oid (sessions (run first_lobby_scores two_lobbies)) = [1] \<and>
   map socketId (players (sessions (run first_lobby_scores two_lobbies) ! 0)) = [5, 6, 7, 8]"
  by code_simp

subsection \<open>C2: disconnect in a full session\<close>

text \<open>
  Claim C2 (a disconnect that brings the scores to four completes the session like
  \<open>getScore\<close> does). With three scores in, the disconnect of the fourth player appends
  the zero score and counts the player, but sends nothing and leaves the session, now
  with four scores, in the store; the same fourth entry arriving through \<open>getScore\<close>
  broadcasts the scores and removes the session.
\<close>

theorem disconnect_completes_without_broadcast:
  "map (length \<circ> playersScore) (sessions three_scored) = [3] \<and>
   disconnect_scan 4 (sessions three_scored) = Some (0, 3) \<and>
   snd (disconnect_handler 4 three_scored) = [] \<and>
   map (length \<circ> playersScore) (sessions (fst (disconnect_handler 4 three_scored))) = [4] \<and>
   map disconnectedPlayersCount (sessions (fst (disconnect_handler 4 three_scored))) = [1] \<and>
   getScore_handler 0 (JStr ''D'') (JNum 0) True three_scored =
     (three_scored\<lparr>sessions := []\<rparr>,
      [Broadcast_getScore 0
         [Score_entry (JStr ''A'') (JNum 10), Score_entry (JStr ''B'') (JNum 20),
          Score_entry (JStr ''C'') (JNum 30), Score_entry (JStr ''D'') (JNum 0)],
       Callback Success])"
  by code_simp

subsection \<open>C3: the id after the scores broadcast\<close>

text \<open>
  Claim C3 (after the scores broadcast the session is removed and its id is unknown).
  The session that completes under id 0 is removed, but with a second lobby behind it a
  fifth \<open>getScore\<close> for id 0 is acknowledged with success and lands in that lobby.
\<close>

theorem getScore_after_completion_succeeds:
  "trace first_lobby_scores two_lobbies =
     [Callback Success, Callback Success, Callback Success,
      Broadcast_getScore 0
        [Score_entry (JStr ''A'') (JNum 10), Score_entry (JStr ''B'') (JNum 20),
         Score_entry (JStr ''C'') (JNum 30), Score_entry (JStr ''D'') (JNum 40)],
      Callback Success] \<and>
   snd (getScore_handler 0 (JStr ''A'') (JNum 10) True (run first_lobby_scores two_lobbies))
     = [Callback Success] \<and>
   map oid
     (sessions (fst (getScore_handler 0 (JStr ''A'') (JNum 10) True
        (run first_lobby_scores two_lobbies)))) = [1] \<and>
   map playersScore
     (sessions (fst (getScore_handler 0 (JStr ''A'') (JNum 10) True
        (run first_lobby_scores two_lobbies))))
     = [[Score_entry (JStr ''A'') (JNum 10)]]"
  by code_simp

subsection \<open>C4: the expiry sweep\<close>

text \<open>
  Claim C4 (the sweep spares full sessions), refuted: \<open>isExpired\<close> reads the age only, and
  a full session created at time 0 is removed by the sweep at time 300001.
\<close>

theorem cleanup_removes_full_session:
  "length (players (sessions full_lobby ! 0)) = PLAYERS_PER_SESSION \<and>
   length (sessions full_lobby) = 1 \<and>
   sessions (cleanup 300001 full_lobby) = []"
  by code_simp

text \<open>
  Claim C4, amended. The sweep keeps, in order, exactly the sessions whose age is at most
  \<open>SESSION_TIMEOUT\<close> and removes exactly those whose age exceeds it, whatever the number
  of their players.
\<close>

theorem cleanup_removes_exactly_the_aged:
  "sessions (cleanup now m) = filter (\<lambda>s. now - createdAt s \<le> SESSION_TIMEOUT) (sessions m) \<and>
   set (sessions m) - set (sessions (cleanup now m)) =
     {s \<in> set (sessions m). now - createdAt s > SESSION_TIMEOUT} \<and>
   next_oid (cleanup now m) = next_oid m"
  by (auto simp: cleanup_def isExpired_def not_less)

subsection \<open>C5: the scores of a session\<close>

text \<open>
  Claim C5 (never more than four scores, at most one per player), refuted: a second
  submission under the same name is appended like the first; and after three scores
  and a disconnect the session stays in the store with four entries, so that the next
  submission makes five.
\<close>

theorem scores_repeat_and_exceed_capacity:
  "map (map entry_name \<circ> playersScore)
     (sessions (run (lobby_events @
        [GetScore 0 (JStr ''A'') (JNum 10) True, GetScore 0 (JStr ''A'') (JNum 11) True]) init))
     = [[JStr ''A'', JStr ''A'']] \<and>
   map (map entry_name \<circ> playersScore)
     (sessions (run (lobby_events @ three_scores @
        [Disconnect 4, GetScore 0 (JStr ''A'') (JNum 11) True]) init))
     = [[JStr ''A'', JStr ''B'', JStr ''C'', JStr ''D'', JStr ''A'']] \<and>
   PLAYERS_PER_SESSION <
     length (playersScore (sessions (run (lobby_events @ three_scores @
        [Disconnect 4, GetScore 0 (JStr ''A'') (JNum 11) True]) init) ! 0))"
  by code_simp

text \<open>
  Claim C5, amended. From the empty store, after any sequence of \<open>find\<close>, \<open>getScore\<close>,
  \<open>disconnect\<close> and sweep events, every stored session that no player has forfeited
  (\<open>disconnectedPlayersCount = 0\<close>) has fewer than \<open>PLAYERS_PER_SESSION\<close> scores; and a
  \<open>getScore\<close> for an id inside the array appends exactly one entry to that session,
  whether or not the name has one already, unless the entry is the fourth, which is
  broadcast with the others and removes the session.
\<close>

theorem scores_appended_per_submission_and_bounded_until_forfeit:
  "(\<forall>s\<in>set (sessions (run evs init)).
      disconnectedPlayersCount s = 0 \<longrightarrow> length (playersScore s) < PLAYERS_PER_SESSION) \<and>
   (\<forall>sid nm sc cb. 0 \<le> sid \<longrightarrow> sid < int (length (sessions (run evs init))) \<longrightarrow>
      getScore_handler sid nm sc cb (run evs init) =
        (if Suc (length (playersScore (sessions (run evs init) ! nat sid))) = PLAYERS_PER_SESSION
         then ((run evs init)\<lparr>sessions := take (nat sid) (sessions (run evs init))
                                          @ drop (Suc (nat sid)) (sessions (run evs init))\<rparr>,
               Broadcast_getScore sid
                   (playersScore (sessions (run evs init) ! nat sid) @ [Score_entry nm sc])
                 # (if cb then [Callback Success] else []))
         else ((run evs init)\<lparr>sessions := (sessions (run evs init))[nat sid :=
                   (sessions (run evs init) ! nat sid)
                     \<lparr>playersScore := playersScore (sessions (run evs init) ! nat sid)
                                        @ [Score_entry nm sc]\<rparr>]\<rparr>,
               if cb then [Callback Success] else [])))"
proof (intro conjI allI impI)
  show "\<forall>s\<in>set (sessions (run evs init)).
      disconnectedPlayersCount s = 0 \<longrightarrow> length (playersScore s) < PLAYERS_PER_SESSION"
    by (rule fresh_scores_run [OF wf_store_init]) (simp add: init_def)
next
  fix sid nm sc cb
  assume r: "0 \<le> sid" "sid < int (length (sessions (run evs init)))"
  have "wf_store (run evs init)" by (rule wf_store_run [OF wf_store_init])
  then have d: "distinct (map oid (sessions (run evs init)))" by (simp add: wf_store_def)
  show "getScore_handler sid nm sc cb (run evs init) =
        (if Suc (length (playersScore (sessions (run evs init) ! nat sid))) = PLAYERS_PER_SESSION
         then ((run evs init)\<lparr>sessions := take (nat sid) (sessions (run evs init))
                                          @ drop (Suc (nat sid)) (sessions (run evs init))\<rparr>,
               Broadcast_getScore sid
                   (playersScore (sessions (run evs init) ! nat sid) @ [Score_entry nm sc])
                 # (if cb then [Callback Success] else []))
         else ((run evs init)\<lparr>sessions := (sessions (run evs init))[nat sid :=
                   (sessions (run evs init) ! nat sid)
                     \<lparr>playersScore := playersScore (sessions (run evs init) ! nat sid)
                                        @ [Score_entry nm sc]\<rparr>]\<rparr>,
               if cb then [Callback Success] else []))"
    by (rule getScore_handler_live [OF r d])
qed

theorem scores_appended_per_submission_and_bounded_until_forfeit_witness:
  "map disconnectedPlayersCount (sessions (run repeated_name_events init)) = [0] \<and>
   map playersScore (sessions (run repeated_name_events init))
     = [[Score_entry (JStr ''A'') (JNum 10), Score_entry (JStr ''A'') (JNum 11)]] \<and>
   list_all (\<lambda>s. length (playersScore s) < PLAYERS_PER_SESSION)
     (sessions (run repeated_name_events init)) \<and>
   map playersScore
     (sessions (fst (getScore_handler 0 (JStr ''A'') (JNum 12) True (run repeated_name_events init))))
     = [[Score_entry (JStr ''A'') (JNum 10), Score_entry (JStr ''A'') (JNum 11),
         Score_entry (JStr ''A'') (JNum 12)]] \<and>
   snd (getScore_handler 0 (JStr ''A'') (JNum 12) True (run repeated_name_events init))
     = [Callback Success]"
proof -
  let ?m = "run repeated_name_events init"
  note t1 = scores_appended_per_submission_and_bounded_until_forfeit
      [of repeated_name_events, THEN conjunct1, rule_format]
  note t2 = scores_appended_per_submission_and_bounded_until_forfeit
      [of repeated_name_events, THEN conjunct2, rule_format]
  have z: "map disconnectedPlayersCount (sessions ?m) = [0]" by code_simp
  have p: "map playersScore (sessions ?m)
     = [[Score_entry (JStr ''A'') (JNum 10), Score_entry (JStr ''A'') (JNum 11)]]"
    by code_simp
  from z obtain s0 where s0: "sessions ?m = [s0]" and z0: "disconnectedPlayersCount s0 = 0"
    by (auto simp: map_eq_Cons_conv)
  from p s0 have ps: "playersScore s0 =
      [Score_entry (JStr ''A'') (JNum 10), Score_entry (JStr ''A'') (JNum 11)]"
    by simp
  have "s0 \<in> set (sessions ?m)" by (simp add: s0)
  from t1 [OF this z0] have b: "list_all (\<lambda>s. length (playersScore s) < PLAYERS_PER_SESSION)
      (sessions ?m)"
    by (simp add: s0)
  have r: "(0::int) \<le> 0" "0 < int (length (sessions ?m))" by (simp_all add: s0)
  have g: "getScore_handler 0 (JStr ''A'') (JNum 12) True ?m =
      (?m\<lparr>sessions := [s0\<lparr>playersScore := playersScore s0 @ [Score_entry (JStr ''A'') (JNum 12)]\<rparr>]\<rparr>,
       [Callback Success])"
    by (simp add: t2 [OF r] s0 ps PLAYERS_PER_SESSION_def)
  have "map playersScore (sessions (fst (getScore_handler 0 (JStr ''A'') (JNum 12) True ?m)))
     = [[Score_entry (JStr ''A'') (JNum 10), Score_entry (JStr ''A'') (JNum 11),
         Score_entry (JStr ''A'') (JNum 12)]]"
    unfolding g by (simp add: ps)
  moreover have "snd (getScore_handler 0 (JStr ''A'') (JNum 12) True ?m) = [Callback Success]"
    unfolding g by simp
  ultimately show ?thesis using z p b by (intro conjI)
qed

subsection \<open>C6: one seat per connection\<close>

text \<open>
  Claim C6 (a connection id is seated at most once in the whole store), refuted: \<open>find\<close>
  does not look for the socket among the players, so a socket that sends \<open>find\<close> twice
  sits twice in one session, or in two sessions when the first one is full.
\<close>

theorem connection_seated_twice:
  "map session_sockets (sessions (run [Find (JStr ''A'') 1 0, Find (JStr ''A'') 1 0] init))
     = [[1, 1]] \<and>
   map session_sockets (sessions (run (lobby_events @ [Find (JStr ''A'') 1 0]) init))
     = [[1, 2, 3, 4], [1]]"
  by code_simp

text \<open>
  Claim C6, amended. From the empty store, if no socket sends a \<open>find\<close> with a valid name
  while it is seated, then after any sequence of \<open>find\<close>, \<open>getScore\<close>, \<open>disconnect\<close> and
  sweep events every socket is seated at most once in the whole store. The witness is
  a rematch: the four sockets of a completed game join again.
\<close>

theorem connection_seated_once_when_joiners_are_unseated:
  assumes "joins_unseated evs init"
  shows "distinct (all_sockets (run evs init))"
  using wf_store_init _ assms by (rule sockets_run_unseated) (simp add: all_sockets_def init_def)

theorem connection_seated_once_when_joiners_are_unseated_witness:
  "joins_unseated rematch_events init \<and>
   \<not> distinct (find_sockets rematch_events) \<and>
   distinct (all_sockets (run rematch_events init)) \<and>
   all_sockets (run rematch_events init) = [1, 2, 3, 4, 5]"
proof -
  have h: "joins_unseated rematch_events init" by code_simp
  have n: "\<not> distinct (find_sockets rematch_events)" by code_simp
  have "all_sockets (run rematch_events init) = [1, 2, 3, 4, 5]" by code_simp
  with h n connection_seated_once_when_joiners_are_unseated [OF h] show ?thesis by blast
qed

subsection \<open>C7: disconnect before the session is full\<close>

text \<open>
  Claim C7 (a session left before it fills never appears in a later search for an open
  session), refuted: the session that its only player leaves stays in the store, empty,
  is the result of the next search, and receives the next player.
\<close>

theorem emptied_session_is_reused:
  "trace [Find (JStr ''A'') 1 0, Disconnect 1] init = [] \<and>
   map oid (sessions (run [Find (JStr ''A'') 1 0, Disconnect 1] init)) = [0] \<and>
   map players (sessions (run [Find (JStr ''A'') 1 0, Disconnect 1] init)) = [[]] \<and>
   findOpenSession (sessions (run [Find (JStr ''A'') 1 0, Disconnect 1] init)) = Some 0 \<and>
   map oid (sessions (run [Find (JStr ''A'') 1 0, Disconnect 1, Find (JStr ''B'') 2 0] init))
     = [0] \<and>
   map players (sessions (run [Find (JStr ''A'') 1 0, Disconnect 1, Find (JStr ''B'') 2 0] init))
     = [[\<lparr>name = ''B'', socketId = 2\<rparr>]]"
  by code_simp

text \<open>
  Claim C7, amended. When the session found for the socket has fewer than
  \<open>PLAYERS_PER_SESSION\<close> players, the disconnect removes that player's entry and nothing
  else, sends nothing, and leaves the session open: the search for an open session
  returns it, or a session before it, and returns it when no earlier session has a
  free seat.
\<close>

theorem disconnect_while_filling:
  assumes "disconnect_scan c (sessions m) = Some (i, k)"
    and "length (players (sessions m ! i)) < PLAYERS_PER_SESSION"
  shows "disconnect_handler c m =
           (m\<lparr>sessions := (sessions m)[i := (sessions m ! i)
                 \<lparr>players := take k (players (sessions m ! i))
                               @ drop (Suc k) (players (sessions m ! i))\<rparr>]\<rparr>, []) \<and>
         (\<exists>j\<le>i. findOpenSession (sessions (fst (disconnect_handler c m))) = Some j) \<and>
         ((\<forall>j<i. PLAYERS_PER_SESSION \<le> length (players (sessions m ! j))) \<longrightarrow>
            findOpenSession (sessions (fst (disconnect_handler c m))) = Some i)"
proof -
  let ?ps = "players (sessions m ! i)"
  let ?s' = "(sessions m ! i)\<lparr>players := take k ?ps @ drop (Suc k) ?ps\<rparr>"
  let ?ss' = "(sessions m)[i := ?s']"
  note eq = disconnect_handler_filling [OF assms]
  from disconnect_scan_Some [OF assms(1)] have i: "i < length (sessions m)" by simp
  have i': "i < length ?ss'" using i by simp
  have lt: "length (players (?ss' ! i)) < PLAYERS_PER_SESSION"
    using i assms(2) by simp
  have ex: "\<exists>j\<le>i. findOpenSession ?ss' = Some j"
    by (rule findOpenSession_exists [OF i' lt])
  have first: "findOpenSession ?ss' = Some i"
    if "\<forall>j<i. PLAYERS_PER_SESSION \<le> length (players (sessions m ! j))"
    using that by (intro findOpenSession_first [OF i' lt]) simp
  from eq ex first show ?thesis by simp
qed

theorem disconnect_while_filling_witness:
  "disconnect_scan 1 (sessions (run [Find (JStr ''A'') 1 0] init)) = Some (0, 0) \<and>
   length (players (sessions (run [Find (JStr ''A'') 1 0] init) ! 0)) < PLAYERS_PER_SESSION \<and>
   snd (disconnect_handler 1 (run [Find (JStr ''A'') 1 0] init)) = [] \<and>
   findOpenSession (sessions (fst (disconnect_handler 1 (run [Find (JStr ''A'') 1 0] init))))
     = Some 0"
proof -
  define m where "m = run [Find (JStr ''A'') 1 0] init"
  have h1: "disconnect_scan 1 (sessions m) = Some (0, 0)" unfolding m_def by code_simp
  have h2: "length (players (sessions m ! 0)) < PLAYERS_PER_SESSION" unfolding m_def by code_simp
  note t = disconnect_while_filling [OF h1 h2]
  from t have "snd (disconnect_handler 1 m) = []" by (metis snd_conv)
  moreover from t have "findOpenSession (sessions (fst (disconnect_handler 1 m))) = Some 0"
    by (metis not_less_zero)
  ultimately show ?thesis using h1 h2 unfolding m_def by blast
qed

subsection \<open>C8: the broadcast of a full session\<close>

text \<open>
  Claim C8 (every session is announced exactly once, at the join that fills it),
  refuted as stated: a session swept before it fills is never announced; and under the
  earlier handlers the session with id 0, emptied after its four scores, fills again and
  is announced a second time.
\<close>

theorem find_broadcast_not_exactly_once:
  "trace [Find (JStr ''A'') 1 0, Cleanup 300001] init = [] \<and>
   map oid (sessions (run [Find (JStr ''A'') 1 0] init)) = [0] \<and>
   sessions (run [Find (JStr ''A'') 1 0, Cleanup 300001] init) = [] \<and>
   trace_v1 (lobby_events_v1 @ lobby_scores_v1 @ lobby_events_v1) init_v1 =
     [Broadcast_find 0,
      Broadcast_getScore 0
        [Score_entry (JStr ''A'') (JNum 10), Score_entry (JStr ''B'') (JNum 20),
         Score_entry (JStr ''C'') (JNum 30), Score_entry (JStr ''D'') (JNum 40)],
      Broadcast_find 0] \<and>
   map id_v1 (Object_values (run_v1 (lobby_events_v1 @ lobby_scores_v1 @ lobby_events_v1) init_v1)) = [0]"
  by code_simp

text \<open>
  Claim C8, amended, for the \<open>SessionManager\<close> server. In every run from the empty store
  no session object is announced twice; a stored session has been announced once if it
  is full and not at all otherwise; and the next event sends the \<open>find\<close> broadcast with
  position \<open>j\<close> exactly when it is a \<open>find\<close> with a valid name that seats the fourth
  player of the session at \<open>j\<close>.
\<close>

theorem find_broadcast_at_the_filling_join_only:
  "(\<forall>r. count_list (full_log evs init) r \<le> 1) \<and>
   (\<forall>s\<in>set (sessions (run evs init)).
      count_list (full_log evs init) (oid s) =
        (if length (players s) = PLAYERS_PER_SESSION then 1 else 0)) \<and>
   (\<forall>e j. Broadcast_find j \<in> set (snd (step e (run evs init))) \<longleftrightarrow>
      valid_join e \<and>
      (\<exists>i. findOpenSession (sessions (run evs init)) = Some i \<and> j = int i \<and>
           Suc (length (players (sessions (run evs init) ! i))) = PLAYERS_PER_SESSION))"
proof -
  from log_inv_run [OF log_inv_init, of evs]
  have inv: "log_inv (run evs init) (full_log evs init)" by simp
  then have d: "distinct (full_log evs init)" by (simp add: log_inv_def)
  then have c: "count_list (full_log evs init) r = (if r \<in> set (full_log evs init) then 1 else 0)" for r
    by (rule count_list_distinct)
  from inv have "oid s \<in> set (full_log evs init) \<longleftrightarrow> length (players s) = PLAYERS_PER_SESSION"
    if "s \<in> set (sessions (run evs init))" for s
    using that by (simp add: log_inv_def)
  with c have a: "(\<forall>r. count_list (full_log evs init) r \<le> 1) \<and>
   (\<forall>s\<in>set (sessions (run evs init)).
      count_list (full_log evs init) (oid s) =
        (if length (players s) = PLAYERS_PER_SESSION then 1 else 0))" by simp
  from inv have "distinct (map oid (sessions (run evs init)))"
    by (simp add: log_inv_def wf_store_def)
  from find_broadcast_iff [OF this] a show ?thesis by blast
qed

theorem find_broadcast_at_the_filling_join_only_witness:
  "full_log (lobby_events @ second_lobby_events @ first_lobby_scores @ lobby_events) init = [0, 1, 2] \<and>
   map oid (sessions (run (lobby_events @ second_lobby_events @ first_lobby_scores @ lobby_events) init))
     = [1, 2] \<and>
   list_all (\<lambda>s. count_list
        (full_log (lobby_events @ second_lobby_events @ first_lobby_scores @ lobby_events) init) (oid s) =
        (if length (players s) = PLAYERS_PER_SESSION then 1 else 0))
     (sessions (run (lobby_events @ second_lobby_events @ first_lobby_scores @ lobby_events) init)) \<and>
   count_list (full_log (lobby_events @ second_lobby_events @ first_lobby_scores @ lobby_events) init) 0 \<le> 1"
proof -
  let ?evs = "lobby_events @ second_lobby_events @ first_lobby_scores @ lobby_events"
  note t = find_broadcast_at_the_filling_join_only [of ?evs]
  have a: "full_log ?evs init = [0, 1, 2]" by code_simp
  have b: "map oid (sessions (run ?evs init)) = [1, 2]" by code_simp
  from t have "list_all (\<lambda>s. count_list (full_log ?evs init) (oid s) =
        (if length (players s) = PLAYERS_PER_SESSION then 1 else 0)) (sessions (run ?evs init))"
    unfolding list_all_iff by blast
  moreover from t have "count_list (full_log ?evs init) 0 \<le> 1" by blast
  ultimately show ?thesis using a b by blast
qed

subsection \<open>C9: capacity\<close>

text \<open>
  Claim C9. From the empty store, after any sequence of \<open>find\<close> events with valid
  (non-empty string) names, no session holds more than \<open>PLAYERS_PER_SESSION = 4\<close>
  players. Every prefix of such a sequence is such a sequence, so the bound holds at
  every moment of the run. (The bound does not depend on the events being joins:
  \<open>players_bounded_run\<close> has it for all events.)
\<close>

theorem players_never_exceed_capacity:
  assumes "list_all valid_join evs"
  shows "\<forall>s\<in>set (sessions (run evs init)). length (players s) \<le> PLAYERS_PER_SESSION"
  by (rule players_bounded_run [OF wf_store_init]) (simp add: init_def)

theorem players_never_exceed_capacity_witness:
  "list_all valid_join (lobby_events @ second_lobby_events @ [Find (JStr ''I'') 9 0]) \<and>
   list_all (\<lambda>s. length (players s) \<le> PLAYERS_PER_SESSION)
     (sessions (run (lobby_events @ second_lobby_events @ [Find (JStr ''I'') 9 0]) init)) \<and>
   map (\<lambda>s. length (players s))
     (sessions (run (lobby_events @ second_lobby_events @ [Find (JStr ''I'') 9 0]) init)) = [4, 4, 1]"
proof -
  let ?evs = "lobby_events @ second_lobby_events @ [Find (JStr ''I'') 9 0]"
  have h: "list_all valid_join ?evs"
    by (simp add: lobby_events_def second_lobby_events_def)
  have "list_all (\<lambda>s. length (players s) \<le> PLAYERS_PER_SESSION) (sessions (run ?evs init))"
    using players_never_exceed_capacity [OF h] by (simp add: list_all_iff)
  moreover have "map (\<lambda>s. length (players s)) (sessions (run ?evs init)) = [4, 4, 1]"
    by code_simp
  ultimately show ?thesis using h by blast
qed

subsection \<open>C10: what \<open>getScore\<close> checks\<close>

text \<open>
  Claim C10. \<open>getScore\<close> looks the session up and checks nothing else: for an id
  inside the array, the payload's name and score are appended whatever they are and
  whoever sends them (the handler never reads the socket), and the entry counts
  towards the four that trigger the broadcast and the removal.
\<close>

theorem getScore_counts_any_submission:
  assumes "0 \<le> sid" and "sid < int (length (sessions m))" and "distinct (map oid (sessions m))"
  shows "getScore_handler sid nm sc cb m =
           (if Suc (length (playersScore (sessions m ! nat sid))) = PLAYERS_PER_SESSION
            then (m\<lparr>sessions := take (nat sid) (sessions m) @ drop (Suc (nat sid)) (sessions m)\<rparr>,
                  Broadcast_getScore sid (playersScore (sessions m ! nat sid) @ [Score_entry nm sc])
                    # (if cb then [Callback Success] else []))
            else (m\<lparr>sessions := (sessions m)[nat sid := (sessions m ! nat sid)
                       \<lparr>playersScore := playersScore (sessions m ! nat sid) @ [Score_entry nm sc]\<rparr>]\<rparr>,
                  if cb then [Callback Success] else []))"
  using assms by (rule getScore_handler_live)

theorem getScore_counts_any_submission_witness:
  "(0::int) \<le> 0 \<and> 0 < int (length (sessions full_lobby)) \<and>
   distinct (map oid (sessions full_lobby)) \<and>
   map (name) (players (sessions full_lobby ! 0)) = [''A'', ''B'', ''C'', ''D''] \<and>
   getScore_handler 0 (JStr ''Mallory'') (JNum 7) True full_lobby =
     (full_lobby\<lparr>sessions := (sessions full_lobby)[0 := (sessions full_lobby ! 0)
         \<lparr>playersScore := [Score_entry (JStr ''Mallory'') (JNum 7)]\<rparr>]\<rparr>, [Callback Success])"
proof -
  have h1: "(0::int) \<le> 0" by simp
  have h2: "0 < int (length (sessions full_lobby))" by code_simp
  have h3: "distinct (map oid (sessions full_lobby))" by code_simp
  have e: "playersScore (sessions full_lobby ! 0) = []" by code_simp
  have n: "map (name) (players (sessions full_lobby ! 0)) = [''A'', ''B'', ''C'', ''D'']"
    by code_simp
  have "getScore_handler 0 (JStr ''Mallory'') (JNum 7) True full_lobby =
     (full_lobby\<lparr>sessions := (sessions full_lobby)[0 := (sessions full_lobby ! 0)
         \<lparr>playersScore := [Score_entry (JStr ''Mallory'') (JNum 7)]\<rparr>]\<rparr>, [Callback Success])"
    using getScore_counts_any_submission [OF h1 h2 h3, of "JStr ''Mallory''" "JNum 7" True]
    by (simp add: e PLAYERS_PER_SESSION_def)
  with h1 h2 h3 n show ?thesis by blast
qed

end
